theory Spec2Isabelle
  imports Main "HOL-Library.Word"
begin

section \<open>Common types\<close>

text \<open>
  Go values as HOL values. A \<open>uint64\<close> is a 64-bit word (addition wraps). Wall-clock
  instants and \<open>time.Duration\<close> values are counted in nanoseconds. A Go \<open>error\<close> is
  \<open>Error msg\<close>; a run-time panic is \<open>Panic msg\<close>.
\<close>

type_synonym uint64 = "64 word"
type_synonym time = int
type_synonym duration = int

datatype error = Error string | Panic string

text \<open>
  \<open>time.Since(t)\<close> is \<open>time.Now().Sub(t)\<close>; \<open>Sub\<close> saturates at the least and the
  greatest \<open>Duration\<close> (a signed 64-bit count of nanoseconds).
\<close>

definition maxDuration :: duration where
  "maxDuration = 2 ^ 63 - 1"

definition minDuration :: duration where
  "minDuration = - (2 ^ 63)"

definition time_Since :: "time \<Rightarrow> time \<Rightarrow> duration" where
  "time_Since now t =
     (let d = now - t in
      if d > maxDuration then maxDuration
      else if d < minDuration then minDuration
      else d)"

text \<open>
  \<open>FFBigInt.Uint64()\<close> of the common library (on Go's \<open>big.Int.Uint64\<close>): the low
  64 bits of a non-negative value, 0 for a negative one.
\<close>

definition Uint64 :: "int \<Rightarrow> uint64" where
  "Uint64 i = (if i < 0 then 0 else word_of_int i)"

section \<open>Managed transactions\<close>

text \<open>
  Modelled from the spec: the declarations of package apitypes (ManagedTX, its
  status and its history types) are not among the sources. The types follow section 3
  (data model) and section 4.2 (history tracker) of the specification; a sub-status and
  an action are strings, as the tests build them
  (\<open>apitypes.TxSubStatus(fmt.Sprint(i))\<close>). The nonce is a number and the creation
  time an instant, as in the data model; the fields that the data model calls nullable
  are options.
\<close>

datatype TxStatus = TxStatusPending | TxStatusSucceeded | TxStatusFailed | TxStatusSuspended

text \<open>
  Modelled from the spec: apitypes.TxHistoryActionEntry, an action within a history
  entry (section 4.2: action, count, first and last occurrence, last info, last error
  and its time).
\<close>

record TxHistoryActionEntry =
  Action :: string
  Count :: nat
  FirstOccurrence :: time
  LastOccurrence :: time
  LastInfo :: "string option"
  LastError :: "string option"
  LastErrorTime :: "time option"

text \<open>
  Modelled from the spec: apitypes.TxHistoryStateTransitionEntry, an entry of the
  history (section 4.2: status, time and the ordered list of actions).
\<close>

record TxHistoryStateTransitionEntry =
  SubStatus :: string
  Time :: time
  Actions :: "TxHistoryActionEntry list"

text \<open>
  Modelled from the spec: apitypes.TxHistorySummaryEntry, an entry of the summary
  (section 4.2: a status or an action, first and last occurrence, cumulative count).
\<close>

record TxHistorySummaryEntry =
  SummaryStatus :: string
  SummaryAction :: string
  SummaryCount :: nat
  SummaryFirstOccurrence :: time
  SummaryLastOccurrence :: time

text \<open>
  Modelled from the spec: the receipt of a transaction (section 3: block number,
  index and success flag; the other fields are not used here).
\<close>

record TransactionReceipt =
  BlockNumber :: int
  TransactionIndex :: int
  Success :: bool

text \<open>
  Modelled from the spec: apitypes.ManagedTX (section 3), with the fields that the
  functions below read or write.
\<close>

record ManagedTX =
  ID :: string
  Created :: time
  Updated :: time
  From :: string
  Nonce :: int
  Status :: TxStatus
  TransactionHash :: string
  FirstSubmit :: "time option"
  LastSubmit :: "time option"
  Receipt :: "TransactionReceipt option"
  History :: "TxHistoryStateTransitionEntry list"
  HistorySummary :: "TxHistorySummaryEntry list"
  ErrorMessage :: string
  Gas :: int
  TransactionData :: string

section \<open>The nonce allocator (package simple)\<close>

subsection \<open>The collaborators of the transaction handler\<close>

text \<open>
  \<open>persistence.SortDirection\<close>: \<open>SortDirectionAscending = iota\<close> (0) and
  \<open>SortDirectionDescending\<close> (1). \<open>calcNextNonce\<close> passes the literal 1.
\<close>

datatype SortDirection = SortDirectionAscending | SortDirectionDescending

definition SortDirection_of :: "nat \<Rightarrow> SortDirection" where
  "SortDirection_of n = (if n = 0 then SortDirectionAscending else SortDirectionDescending)"

text \<open>
  The interfaces the handler calls through its toolkit, each method a function that
  returns an error or a value. \<open>TXPersistence.ListTransactionsByNonce(ctx, signer,
  after, limit, dir)\<close> is the one read of the persistence that \<open>calcNextNonce\<close>
  makes. Of the connector, \<open>NextNonceForSigner\<close> is reduced to the \<open>Nonce\<close> of its
  response, \<open>TransactionPrepare\<close> to the gas and the transaction data, and
  \<open>TransactionSend\<close> to the transaction hash.
\<close>

record TransactionRequest =
  RequestID :: string
  RequestFrom :: string

record TransactionPrepareResponse =
  PreparedGas :: int
  PreparedData :: string

record TransactionPersistence =
  ListTransactionsByNonce ::
    "string \<Rightarrow> int option \<Rightarrow> nat \<Rightarrow> SortDirection \<Rightarrow> error + ManagedTX list"

record ffcapi_API =
  NextNonceForSigner :: "string \<Rightarrow> error + int"
  TransactionPrepare :: "TransactionRequest \<Rightarrow> error + TransactionPrepareResponse"
  TransactionSend :: "ManagedTX \<Rightarrow> error + string"

record toolkit =
  TXPersistence :: TransactionPersistence
  Connector :: ffcapi_API

text \<open>The remote calls a function makes, in the order it makes them.\<close>

datatype rpc =
    PersistenceListByNonce string "int option" nat SortDirection
  | ConnectorNextNonce string

subsection \<open>calcNextNonce\<close>

text \<open>
  \<open>calcNextNonce\<close>, with the remote calls it makes. \<open>now\<close> is the time at which
  \<open>time.Since\<close> is evaluated, \<open>timeout\<close> the handler's \<open>nonceStateTimeout\<close>.
  The debug log lines are left out.
\<close>

definition calcNextNonce ::
    "toolkit \<Rightarrow> time \<Rightarrow> duration \<Rightarrow> string \<Rightarrow> rpc list \<times> (error + uint64)" where
  "calcNextNonce tk now timeout addr =
     (let q = PersistenceListByNonce addr None 1 (SortDirection_of 1) in
      case ListTransactionsByNonce (TXPersistence tk) addr None 1 (SortDirection_of 1) of
        Inl err \<Rightarrow> ([q], Inl err)
      | Inr txns \<Rightarrow>
          (let lastTxn = (case txns of [] \<Rightarrow> None | t # _ \<Rightarrow> Some t) in
           case (case lastTxn of
                   None \<Rightarrow> None
                 | Some t \<Rightarrow>
                     if time_Since now (Created t) < timeout
                     then Some (Uint64 (Nonce t) + 1)
                     else None) of
             Some nextNonce \<Rightarrow> ([q], Inr nextNonce)
           | None \<Rightarrow>
               (case NextNonceForSigner (Connector tk) addr of
                  Inl err \<Rightarrow> ([q, ConnectorNextNonce addr], Inl err)
                | Inr res \<Rightarrow>
                    (let nextNonce = Uint64 res in
                     ([q, ConnectorNextNonce addr],
                      Inr (case lastTxn of
                             None \<Rightarrow> nextNonce
                           | Some t \<Rightarrow>
                               if nextNonce \<le> Uint64 (Nonce t)
                               then Uint64 (Nonce t) + 1
                               else nextNonce))))))"

subsection \<open>The locked nonce and the handler's state\<close>

text \<open>
  A channel made by \<open>make(chan struct{})\<close> is a number; the handler's state keeps,
  for every channel made so far, whether it has been closed. The back pointer
  \<open>th\<close> of a \<open>lockedNonce\<close> is the state that is passed along. The map holds
  pointers to the \<open>lockedNonce\<close> objects; the only field read through the map is
  \<open>unlocked\<close>, which never changes, so the map holds the object as it was inserted.
  \<open>mux\<close> is the mutex of the handler: \<open>True\<close> when it is locked. Each critical
  section under \<open>mux\<close> is one step of the model: it can be entered only when the
  mutex is free, and it leaves the mutex free when it runs to its \<open>Unlock\<close>.
\<close>

record lockedNonce =
  nsOpID :: string
  signer :: string
  unlocked :: nat
  nonce :: uint64
  spent :: "ManagedTX option"

record pendingState =
  mtx :: ManagedTX
  confirmed :: bool
  remove :: bool
  trackingTransactionHash :: string

record simpleTransactionHandler =
  mux :: bool
  lockedNonces :: "string \<rightharpoonup> lockedNonce"
  channels :: "bool list"
  nonceStateTimeout :: duration
  inflight :: "pendingState list"
  inflightStale :: bool

text \<open>
  \<open>complete\<close>: \<open>mux.Lock()\<close>, which does not return while the mutex is locked
  (the result is then \<open>None\<close>: the call blocks); the entry of the signer is deleted
  from the map, then the channel is closed, then \<open>mux.Unlock()\<close>. The close of a
  closed channel panics: there is no deferred unlock, so the panic leaves the mutex
  locked, with the entry of the signer deleted (the result is then the state at the
  panic, with the panic). The two debug log lines are left out. A handle returned by
  \<open>assignAndLockNonce\<close> carries a channel that was made; for any other number the
  close is that of a nil channel, which panics as well.
\<close>

definition complete ::
    "simpleTransactionHandler \<Rightarrow> lockedNonce \<Rightarrow>
     (simpleTransactionHandler \<times> error option) option" where
  "complete sth ln =
     (if mux sth then None
      else
        (let sth1 = sth\<lparr>lockedNonces := (lockedNonces sth)(signer ln := None)\<rparr> in
         if unlocked ln < length (channels sth1)
         then if channels sth1 ! unlocked ln
              then Some (sth1\<lparr>mux := True\<rparr>, Some (Panic ''close of closed channel''))
              else Some (sth1\<lparr>channels := (channels sth1)[unlocked ln := True]\<rparr>, None)
         else Some (sth1\<lparr>mux := True\<rparr>, Some (Panic ''close of nil channel''))))"

text \<open>
  \<open>assignAndLockNonce\<close> run with no other goroutine between its steps. The call
  blocks in \<open>mux.Lock()\<close> when the mutex is locked (\<open>None\<close>: nobody is there
  to unlock it). When the signer is locked the caller waits on the holder's channel and
  then takes the loop again; alone, it finds the same entry again, so the call does not
  return (\<open>None\<close>). The interleaving of several callers is the subject of the
  goroutine steps further down.
\<close>

partial_function (option) assignAndLockNonce ::
    "toolkit \<Rightarrow> time \<Rightarrow> simpleTransactionHandler \<Rightarrow> string \<Rightarrow> string \<Rightarrow>
     (simpleTransactionHandler \<times> rpc list \<times> (error + lockedNonce)) option" where
  "assignAndLockNonce tk now sth opID addr =
     (if mux sth then None
      else
        (case lockedNonces sth addr of
           Some locked \<Rightarrow> assignAndLockNonce tk now sth opID addr
         | None \<Rightarrow>
             (let locked = \<lparr>nsOpID = opID, signer = addr, unlocked = length (channels sth),
                             nonce = 0, spent = None\<rparr>;
                  sth1 = sth\<lparr>lockedNonces := (lockedNonces sth)(addr \<mapsto> locked),
                             channels := channels sth @ [False]\<rparr>
              in case calcNextNonce tk now (nonceStateTimeout sth) addr of
                   (calls, Inl err) \<Rightarrow>
                     (case complete sth1 locked of
                        None \<Rightarrow> None
                      | Some (sth2, None) \<Rightarrow> Some (sth2, calls, Inl err)
                      | Some (sth2, Some p) \<Rightarrow> Some (sth2, calls, Inl p))
                 | (calls, Inr nextNonce) \<Rightarrow>
                     Some (sth1, calls, Inr (locked\<lparr>nonce := nextNonce\<rparr>)))))"

section \<open>The persistence\<close>

text \<open>
  Modelled from the spec: the implementation of the persistence interface (the
  key-value store) is not among the sources, only the interface
  \<open>TransactionPersistence\<close>. Section 6 of the specification gives the contract
  that is modelled here: the stored transactions, listed within a signer in nonce order
  (\<open>ListTransactionsByNonce\<close>), read by id (\<open>GetTransactionByID\<close>, nothing when the
  id is unknown), written (\<open>WriteTransaction\<close>, which rejects a new transaction whose
  id exists) and deleted (\<open>DeleteTransaction\<close>). Every operation can fail, as the
  mocked persistence of the tests does: \<open>readFault\<close> and \<open>writeFault\<close> hold the
  error that reads, respectively writes and deletes, return.
\<close>

record persistence =
  transactions :: "ManagedTX list"
  readFault :: "error option"
  writeFault :: "error option"

text \<open>
  Modelled from the spec: \<open>ListTransactionsByNonce\<close> of the store (section 6: the
  transactions of the signer in nonce order, in the direction asked for, after the
  nonce \<open>after\<close> when one is given, at most \<open>limit\<close> of them).
\<close>

definition store_ListTransactionsByNonce ::
    "persistence \<Rightarrow> string \<Rightarrow> int option \<Rightarrow> nat \<Rightarrow> SortDirection \<Rightarrow> error + ManagedTX list" where
  "store_ListTransactionsByNonce p addr after limit dir =
     (case readFault p of
        Some e \<Rightarrow> Inl e
      | None \<Rightarrow>
          (let ascending = sort_key Nonce (filter (\<lambda>t. From t = addr) (transactions p));
               ordered = (case dir of
                            SortDirectionAscending \<Rightarrow> ascending
                          | SortDirectionDescending \<Rightarrow> rev ascending);
               page = (case after of
                         None \<Rightarrow> ordered
                       | Some a \<Rightarrow>
                           filter (\<lambda>t. case dir of
                                          SortDirectionAscending \<Rightarrow> a < Nonce t
                                        | SortDirectionDescending \<Rightarrow> Nonce t < a) ordered)
           in Inr (take limit page)))"

text \<open>
  Modelled from the spec: \<open>GetTransactionByID\<close> of the store (section 6); nothing
  and no error for an unknown id, as the mocked persistence of
  TestExecPolicyDeleteNotFound answers.
\<close>

definition store_GetTransactionByID :: "persistence \<Rightarrow> string \<Rightarrow> error + ManagedTX option" where
  "store_GetTransactionByID p i =
     (case readFault p of
        Some e \<Rightarrow> Inl e
      | None \<Rightarrow> Inr (find (\<lambda>t. ID t = i) (transactions p)))"

text \<open>
  Modelled from the spec: \<open>WriteTransaction\<close> of the store (section 6: it must
  reject when \<open>isNew\<close> and the id already exists).
\<close>

definition store_WriteTransaction :: "persistence \<Rightarrow> ManagedTX \<Rightarrow> bool \<Rightarrow> error + persistence" where
  "store_WriteTransaction p tx isNew =
     (case writeFault p of
        Some e \<Rightarrow> Inl e
      | None \<Rightarrow>
          if ID tx \<in> ID ` set (transactions p)
          then if isNew then Inl (Error ''transaction ID exists'')
               else Inr (p\<lparr>transactions :=
                            map (\<lambda>t. if ID t = ID tx then tx else t) (transactions p)\<rparr>)
          else Inr (p\<lparr>transactions := transactions p @ [tx]\<rparr>))"

text \<open>
  Modelled from the spec: \<open>DeleteTransaction\<close> of the store (section 6).
\<close>

definition store_DeleteTransaction :: "persistence \<Rightarrow> string \<Rightarrow> error + persistence" where
  "store_DeleteTransaction p i =
     (case writeFault p of
        Some e \<Rightarrow> Inl e
      | None \<Rightarrow> Inr (p\<lparr>transactions := filter (\<lambda>t. ID t \<noteq> i) (transactions p)\<rparr>))"

text \<open>
  The toolkit of a handler whose persistence is the store \<open>p\<close> and whose connector
  is \<open>conn\<close>.
\<close>

definition toolkit_of :: "persistence \<Rightarrow> ffcapi_API \<Rightarrow> toolkit" where
  "toolkit_of p conn =
     \<lparr>TXPersistence = \<lparr>ListTransactionsByNonce = store_ListTransactionsByNonce p\<rparr>,
      Connector = conn\<rparr>"

section \<open>Accepting a new transaction\<close>

text \<open>
  Modelled from the spec: \<open>HandleNewTransaction\<close> is not among the sources (its
  callers in the tests are). Section 2 of the specification: it calls the connector's
  prepare, acquires a nonce via the nonce allocator, writes the new managed transaction
  to persistence (one write, status Pending, no submission yet) and signals the policy
  loop to re-scan; section 4.1: the handle is completed once the nonce is spent or
  returned; section 7: preparation and nonce-allocation failures are returned to the
  caller. The result is \<open>None\<close> when the call does not return.
\<close>

text \<open>
  Modelled from the spec: the managed transaction that \<open>HandleNewTransaction\<close>
  creates (section 3, lifecycle: status Pending, no submission yet), with the nonce
  that was assigned.
\<close>

definition newManagedTX ::
    "TransactionRequest \<Rightarrow> TransactionPrepareResponse \<Rightarrow> time \<Rightarrow> uint64 \<Rightarrow> ManagedTX" where
  "newManagedTX req prep now n =
     \<lparr>ID = RequestID req, Created = now, Updated = now, From = RequestFrom req,
      Nonce = uint n, Status = TxStatusPending, TransactionHash = [],
      FirstSubmit = None, LastSubmit = None, Receipt = None, History = [],
      HistorySummary = [], ErrorMessage = [], Gas = PreparedGas prep,
      TransactionData = PreparedData prep\<rparr>"

text \<open>
  Modelled from the spec: \<open>HandleNewTransaction\<close> (sections 2, 4.1 and 7), which is
  not among the sources.
\<close>

definition HandleNewTransaction ::
    "ffcapi_API \<Rightarrow> time \<Rightarrow> simpleTransactionHandler \<times> persistence \<Rightarrow> TransactionRequest \<Rightarrow>
     ((simpleTransactionHandler \<times> persistence) \<times> (error + ManagedTX)) option" where
  "HandleNewTransaction conn now st req =
     (case st of (sth, p) \<Rightarrow>
      case TransactionPrepare conn req of
        Inl err \<Rightarrow> Some ((sth, p), Inl err)
      | Inr prep \<Rightarrow>
          (case assignAndLockNonce (toolkit_of p conn) now sth (RequestID req) (RequestFrom req) of
             None \<Rightarrow> None
           | Some (sth1, calls, Inl err) \<Rightarrow> Some ((sth1, p), Inl err)
           | Some (sth1, calls, Inr ln) \<Rightarrow>
               (let m = newManagedTX req prep now (nonce ln) in
                case store_WriteTransaction p m True of
                  Inl err \<Rightarrow>
                    (case complete sth1 ln of
                       None \<Rightarrow> None
                     | Some (sth2, None) \<Rightarrow> Some ((sth2, p), Inl err)
                     | Some (sth2, Some pnc) \<Rightarrow> Some ((sth2, p), Inl pnc))
                | Inr p1 \<Rightarrow>
                    (case complete sth1 (ln\<lparr>spent := Some m\<rparr>) of
                       None \<Rightarrow> None
                     | Some (sth2, None) \<Rightarrow> Some ((sth2\<lparr>inflightStale := True\<rparr>, p1), Inr m)
                     | Some (sth2, Some pnc) \<Rightarrow> Some ((sth2, p1), Inl pnc)))))"

text \<open>
  A sequence of calls of \<open>HandleNewTransaction\<close>, one after the other; each comes
  with the time at which it is handled and the connector's answers at that time. The
  results are in the order of the requests.
\<close>

fun handleRequests ::
    "simpleTransactionHandler \<times> persistence \<Rightarrow> (time \<times> ffcapi_API \<times> TransactionRequest) list \<Rightarrow>
     ((simpleTransactionHandler \<times> persistence) \<times> (error + ManagedTX) list) option" where
  "handleRequests st [] = Some (st, [])"
| "handleRequests st ((now, conn, req) # rs) =
     (case HandleNewTransaction conn now st req of
        None \<Rightarrow> None
      | Some (st1, r) \<Rightarrow>
          (case handleRequests st1 rs of
             None \<Rightarrow> None
           | Some (st2, results) \<Rightarrow> Some (st2, r # results)))"

text \<open>The nonces of the accepted requests among the results.\<close>

fun assignedNonces :: "(error + ManagedTX) list \<Rightarrow> int list" where
  "assignedNonces [] = []"
| "assignedNonces (Inl e # rs) = assignedNonces rs"
| "assignedNonces (Inr m # rs) = Nonce m # assignedNonces rs"

text \<open>
  The nonce and the creation time of the signer's latest persisted transaction: the
  answer of the persistence to the query of \<open>calcNextNonce\<close>.
\<close>

definition latestNonce :: "persistence \<Rightarrow> string \<Rightarrow> (int \<times> time) option" where
  "latestNonce p addr =
     (case store_ListTransactionsByNonce p addr None 1 SortDirectionDescending of
        Inr (t # ts) \<Rightarrow> Some (Nonce t, Created t)
      | _ \<Rightarrow> None)"

text \<open>
  The condition under which a sequence of requests of one signer meets no jump ahead
  of the node and no wrap-around. \<open>latest\<close> is the nonce and the creation time of the
  signer's latest transaction before the requests. With no transaction yet, the first
  request takes the node's answer, which is a \<open>uint64\<close>. With a latest transaction of
  nonce \<open>m\<close>, \<open>m + 1\<close> is a \<open>uint64\<close>, and either the transaction is younger than
  \<open>nonceStateTimeout\<close> when the request is handled or the node's answer is at most
  \<open>m + 1\<close>. \<open>firstNonce\<close> is the nonce the first of the requests is given then.
\<close>

fun nodeNotAhead ::
    "duration \<Rightarrow> string \<Rightarrow> (int \<times> time) option \<Rightarrow>
     (time \<times> ffcapi_API \<times> TransactionRequest) list \<Rightarrow> bool" where
  "nodeNotAhead timeout addr latest [] = True"
| "nodeNotAhead timeout addr latest ((now, conn, req) # rs) =
     (case latest of
        None \<Rightarrow>
          (case NextNonceForSigner conn addr of
             Inl e \<Rightarrow> False
           | Inr n \<Rightarrow> 0 \<le> n \<and> n < 2 ^ 64 \<and> nodeNotAhead timeout addr (Some (n, now)) rs)
      | Some (m, c) \<Rightarrow>
          0 \<le> m \<and> m + 1 < 2 ^ 64
          \<and> (time_Since now c < timeout
               \<or> (case NextNonceForSigner conn addr of
                     Inl e \<Rightarrow> False
                   | Inr n \<Rightarrow> 0 \<le> n \<and> n \<le> m + 1))
          \<and> nodeNotAhead timeout addr (Some (m + 1, now)) rs)"

fun firstNonce ::
    "(int \<times> time) option \<Rightarrow> (time \<times> ffcapi_API \<times> TransactionRequest) list \<Rightarrow> string \<Rightarrow> int" where
  "firstNonce (Some (m, c)) rs addr = m + 1"
| "firstNonce None ((now, conn, req) # rs) addr =
     (case NextNonceForSigner conn addr of Inr n \<Rightarrow> n | Inl e \<Rightarrow> 0)"
| "firstNonce None [] addr = 0"

section \<open>The history tracker\<close>

text \<open>
  Modelled from the spec: the implementation of package txhistory is not among the
  sources (its tests are). Section 4.2 of the specification: \<open>SetSubStatus\<close> with the
  status of the current tail is a no-op; otherwise an entry with the status, the time
  and no action is appended; the history is bounded to \<open>maxHistoryCount\<close> entries,
  the oldest entry leaving first; the summary keeps one entry for every status ever
  seen, with the first and the last occurrence and a count, and is never cut; with
  \<open>maxHistoryCount = 0\<close> both lists stay empty.
\<close>

text \<open>
  Modelled from the spec: the update of the summary by \<open>SetSubStatus\<close> (section
  4.2), which is not among the sources: the entry of the status counts one more and
  takes the time as its last occurrence; a status not seen before gets a new entry.
\<close>

fun countSummary :: "time \<Rightarrow> string \<Rightarrow> TxHistorySummaryEntry list \<Rightarrow> TxHistorySummaryEntry list" where
  "countSummary now subStatus [] =
     [\<lparr>SummaryStatus = subStatus, SummaryAction = [], SummaryCount = 1,
       SummaryFirstOccurrence = now, SummaryLastOccurrence = now\<rparr>]"
| "countSummary now subStatus (e # es) =
     (if SummaryStatus e = subStatus \<and> SummaryAction e = []
      then e\<lparr>SummaryLastOccurrence := now, SummaryCount := SummaryCount e + 1\<rparr> # es
      else e # countSummary now subStatus es)"

text \<open>
  Modelled from the spec: \<open>SetSubStatus\<close> of package txhistory (section 4.2),
  which is not among the sources.
\<close>

definition SetSubStatus :: "nat \<Rightarrow> time \<Rightarrow> ManagedTX \<Rightarrow> string \<Rightarrow> ManagedTX" where
  "SetSubStatus maxHistoryCount now m subStatus =
     (if maxHistoryCount = 0 then m
      else if History m \<noteq> [] \<and> SubStatus (last (History m)) = subStatus then m
      else
        (let appended = History m @ [\<lparr>SubStatus = subStatus, Time = now, Actions = []\<rparr>];
             bounded = (if length appended > maxHistoryCount then tl appended else appended)
         in m\<lparr>History := bounded,
              HistorySummary := countSummary now subStatus (HistorySummary m)\<rparr>))"

text \<open>A run of \<open>SetSubStatus\<close> calls, each with the time of the call.\<close>

fun setSubStatuses :: "nat \<Rightarrow> ManagedTX \<Rightarrow> (time \<times> string) list \<Rightarrow> ManagedTX" where
  "setSubStatuses maxHistoryCount m [] = m"
| "setSubStatuses maxHistoryCount m ((now, subStatus) # calls) =
     setSubStatuses maxHistoryCount (SetSubStatus maxHistoryCount now m subStatus) calls"

text \<open>\<open>fmt.Sprint(i)\<close> for a non-negative \<open>i\<close>: its decimal digits.\<close>

fun fmt_Sprint :: "nat \<Rightarrow> string" where
  "fmt_Sprint n =
     (if n < 10 then [char_of (48 + n)]
      else fmt_Sprint (n div 10) @ [char_of (48 + n mod 10)])"

section \<open>The policy loop\<close>

subsection \<open>Submission and the confirmations manager\<close>

text \<open>
  Modelled from the spec: \<open>execPolicy\<close> and the policy engine are not among the
  sources (the tests of the policy loop are). Section 4.4 of the specification gives the
  states: a confirmed record takes its final status from the receipt; a record with a
  receipt waits for the confirmation; an unsent record (\<open>firstSubmit\<close> not set) is
  sent; a submitted record is sent again once \<open>resubmitInterval\<close> has passed since
  \<open>lastSubmit\<close>. A send first obtains the gas price; an error of the gas oracle or of
  the send leaves the record as it is, with the error in \<open>errorMessage\<close>. A send that
  succeeds stores the hash and the submission times. Then the hash registered with the
  confirmations manager (\<open>trackingTransactionHash\<close>, section 4.3) is brought in line
  with the record: when the two differ, the removal of the old hash, if there is one,
  is notified, then the new hash; errors of \<open>Notify\<close> are not fatal, and a new hash
  whose notification failed is notified again on the next cycle. This is the order the
  tests TestPolicyLoopResubmitNewTXID and TestNotifyConfirmationMgrFail expect. The
  sub-status and action records of these steps, the retry delays and the events to
  subscribers are left out. The result carries the notifications in the order in which
  they are sent.
\<close>






subsection \<open>Requests to the policy loop\<close>

text \<open>
  Modelled from the spec: \<open>processPolicyAPIRequests\<close> is not among the sources (its
  tests are). Section 4.5 of the specification: the loop takes every queued request;
  a Delete request looks the transaction up in the in-flight set, then in the
  persistence; a transaction found nowhere yields the error FF21067, an unknown type
  of request FF21073, and the error of a persistence call is the response. The tests
  settle when the transaction leaves the persistence: TestExecPolicyDeleteInflightSync
  requires, of one call to \<open>processPolicyAPIRequests\<close> alone, the call of
  \<open>DeleteTransaction\<close> (an expectation of the mocked persistence that
  \<open>AssertExpectations\<close> checks), the response OK and the flag \<open>remove\<close> of the
  in-flight record. So the delete is made during the request, for a record in flight
  as for one that is not, and the flag takes the record out of the in-flight set on a
  later cycle.
\<close>

text \<open>
  Modelled from the spec: the types of request to the policy loop (section 4.5);
  the tests name \<open>policyEngineAPIRequestTypeDelete\<close> and build an unknown type from
  a number.
\<close>

datatype policyEngineAPIRequestType =
    policyEngineAPIRequestTypeDelete
  | policyEngineAPIRequestTypeOther nat

text \<open>
  Modelled from the spec: a request to the policy loop (section 4.5), as the tests
  build it.
\<close>

record policyEngineAPIRequest =
  requestType :: policyEngineAPIRequestType
  txID :: string

text \<open>
  Modelled from the spec: the response to a request (section 4.5), with the fields
  the tests read.
\<close>

record policyEngineAPIResponse =
  tx :: "ManagedTX option"
  err :: "error option"
  status :: nat

text \<open>
  \<open>http.StatusOK\<close> of the Go library.
\<close>

definition http_StatusOK :: nat where
  "http_StatusOK = 200"

text \<open>
  Modelled from the spec: the response that carries an error (section 4.5).
\<close>

definition errorResponse :: "error \<Rightarrow> policyEngineAPIResponse" where
  "errorResponse e = \<lparr>tx = None, err = Some e, status = 0\<rparr>"

text \<open>
  Modelled from the spec: the error FF21067, transaction not found (section 6).
\<close>

definition MsgTransactionNotFound :: "string \<Rightarrow> error" where
  "MsgTransactionNotFound i = Error (''FF21067: Transaction '' @ i @ '' not found'')"

text \<open>
  Modelled from the spec: the error FF21073, unknown API request type (section 6).
\<close>

definition MsgPolicyEngineRequestInvalid :: error where
  "MsgPolicyEngineRequestInvalid = Error ''FF21073: Invalid policy engine request type''"

text \<open>
  Modelled from the spec: the flag \<open>remove\<close> set on the in-flight record of a
  transaction (section 4.5).
\<close>

fun markRemoved :: "string \<Rightarrow> pendingState list \<Rightarrow> pendingState list" where
  "markRemoved i [] = []"
| "markRemoved i (pending # rest) =
     (if ID (mtx pending) = i then pending\<lparr>remove := True\<rparr> # rest
      else pending # markRemoved i rest)"

text \<open>
  Modelled from the spec: one request of \<open>processPolicyAPIRequests\<close> (section 4.5
  and the tests named above), which is not among the sources.
\<close>

definition processPolicyAPIRequest ::
    "simpleTransactionHandler \<times> persistence \<Rightarrow> policyEngineAPIRequest \<Rightarrow>
     (simpleTransactionHandler \<times> persistence) \<times> policyEngineAPIResponse" where
  "processPolicyAPIRequest st request =
     (case st of (sth, p) \<Rightarrow>
      case (case find (\<lambda>pending. ID (mtx pending) = txID request) (inflight sth) of
              Some pending \<Rightarrow> Inr (mtx pending)
            | None \<Rightarrow>
                (case store_GetTransactionByID p (txID request) of
                   Inl e \<Rightarrow> Inl e
                 | Inr None \<Rightarrow> Inl (MsgTransactionNotFound (txID request))
                 | Inr (Some m) \<Rightarrow> Inr m)) of
        Inl e \<Rightarrow> ((sth, p), errorResponse e)
      | Inr m \<Rightarrow>
          (case requestType request of
             policyEngineAPIRequestTypeDelete \<Rightarrow>
               (case store_DeleteTransaction p (ID m) of
                  Inl e \<Rightarrow> ((sth, p), errorResponse e)
                | Inr p1 \<Rightarrow>
                    ((sth\<lparr>inflight := markRemoved (txID request) (inflight sth),
                          inflightStale := True\<rparr>, p1),
                     \<lparr>tx = Some m, err = None, status = http_StatusOK\<rparr>))
           | policyEngineAPIRequestTypeOther n \<Rightarrow>
               ((sth, p), errorResponse MsgPolicyEngineRequestInvalid)))"

text \<open>
  Modelled from the spec: \<open>processPolicyAPIRequests\<close> (section 4.5), which is not
  among the sources: the queued requests in their order.
\<close>

fun processPolicyAPIRequests ::
    "simpleTransactionHandler \<times> persistence \<Rightarrow> policyEngineAPIRequest list \<Rightarrow>
     (simpleTransactionHandler \<times> persistence) \<times> policyEngineAPIResponse list" where
  "processPolicyAPIRequests st [] = (st, [])"
| "processPolicyAPIRequests st (request # requests) =
     (case processPolicyAPIRequest st request of
        (st1, response) \<Rightarrow>
          (case processPolicyAPIRequests st1 requests of
             (st2, responses) \<Rightarrow> (st2, response # responses)))"

section \<open>Several callers of the nonce allocator\<close>

text \<open>
  The goroutines that call \<open>assignAndLockNonce\<close> and then \<open>complete\<close>, one step
  at a time. A step is what a goroutine does between two points at which another one
  can run: the critical section under \<open>mux\<close> at the top of the loop (the signer is
  locked: wait on the holder's channel; it is not: insert an entry of one's own), the
  receive \<open>\<leftarrow>locked.unlocked\<close> (possible once the channel is closed; the loop is
  taken again), \<open>calcNextNonce\<close> with the return (on an error after \<open>complete\<close>), and
  the caller's \<open>complete\<close> of the handle it holds. A receive on a closed channel
  returns at once for every receiver, so the close of a channel releases all the
  goroutines that wait on it.
\<close>

text \<open>
  Where a goroutine stands: \<open>Entering opID signer\<close>, at the top of the loop of
  \<open>assignAndLockNonce\<close>; \<open>Waiting opID signer c\<close>, in the receive on the channel
  \<open>c\<close> of the holder it found; \<open>Computing locked\<close>, its entry is in the map and it
  runs \<open>calcNextNonce\<close>; \<open>Holding ln\<close>, \<open>assignAndLockNonce\<close> has returned the
  handle \<open>ln\<close>; \<open>Failed e\<close>, \<open>assignAndLockNonce\<close> has returned the error
  \<open>e\<close>, or a panic ended the goroutine; \<open>Completed\<close>, its \<open>complete\<close> has
  returned.
\<close>

datatype goroutine =
    Entering string string
  | Waiting string string nat
  | Computing lockedNonce
  | Holding lockedNonce
  | Failed error
  | Completed

record world =
  handler :: simpleTransactionHandler
  goroutines :: "goroutine list"

definition goStep :: "toolkit \<Rightarrow> time \<Rightarrow> nat \<Rightarrow> world \<Rightarrow> world option" where
  "goStep tk now g w =
     (if length (goroutines w) \<le> g then None
      else
        (let sth = handler w in
         case goroutines w ! g of
           Entering opID addr \<Rightarrow>
             (if mux sth then None
              else
                (case lockedNonces sth addr of
                   Some locked \<Rightarrow>
                     Some (w\<lparr>goroutines :=
                                (goroutines w)[g := Waiting opID addr (unlocked locked)]\<rparr>)
                 | None \<Rightarrow>
                     (let locked = \<lparr>nsOpID = opID, signer = addr,
                                     unlocked = length (channels sth), nonce = 0, spent = None\<rparr>;
                          sth1 = sth\<lparr>lockedNonces := (lockedNonces sth)(addr \<mapsto> locked),
                                     channels := channels sth @ [False]\<rparr>
                      in Some (w\<lparr>handler := sth1,
                                  goroutines := (goroutines w)[g := Computing locked]\<rparr>))))
         | Waiting opID addr c \<Rightarrow>
             (if c < length (channels sth) \<and> channels sth ! c
              then Some (w\<lparr>goroutines := (goroutines w)[g := Entering opID addr]\<rparr>)
              else None)
         | Computing locked \<Rightarrow>
             (case calcNextNonce tk now (nonceStateTimeout sth) (signer locked) of
                (calls, Inl e) \<Rightarrow>
                  (case complete sth locked of
                     None \<Rightarrow> None
                   | Some (sth2, None) \<Rightarrow>
                       Some (w\<lparr>handler := sth2, goroutines := (goroutines w)[g := Failed e]\<rparr>)
                   | Some (sth2, Some pnc) \<Rightarrow>
                       Some (w\<lparr>handler := sth2, goroutines := (goroutines w)[g := Failed pnc]\<rparr>))
              | (calls, Inr nextNonce) \<Rightarrow>
                  Some (w\<lparr>goroutines :=
                             (goroutines w)[g := Holding (locked\<lparr>nonce := nextNonce\<rparr>)]\<rparr>))
         | Holding ln \<Rightarrow>
             (case complete sth ln of
                None \<Rightarrow> None
              | Some (sth2, None) \<Rightarrow>
                  Some (w\<lparr>handler := sth2, goroutines := (goroutines w)[g := Completed]\<rparr>)
              | Some (sth2, Some pnc) \<Rightarrow>
                  Some (w\<lparr>handler := sth2, goroutines := (goroutines w)[g := Failed pnc]\<rparr>))
         | Failed e \<Rightarrow> None
         | Completed \<Rightarrow> None))"

text \<open>
  A schedule names, step by step, the goroutine that runs, with the collaborators'
  answers and the time of that step. \<open>None\<close>: the schedule asks a goroutine to run
  that cannot.
\<close>

fun runSchedule :: "world \<Rightarrow> (nat \<times> toolkit \<times> time) list \<Rightarrow> world option" where
  "runSchedule w [] = Some w"
| "runSchedule w ((g, tk, now) # schedule) =
     (case goStep tk now g w of
        None \<Rightarrow> None
      | Some w1 \<Rightarrow> runSchedule w1 schedule)"

definition initialWorld :: "duration \<Rightarrow> (string \<times> string) list \<Rightarrow> world" where
  "initialWorld timeout callers =
     \<lparr>handler = \<lparr>mux = False, lockedNonces = Map.empty, channels = [],
                  nonceStateTimeout = timeout, inflight = [], inflightStale = False\<rparr>,
      goroutines = map (\<lambda>(opID, addr). Entering opID addr) callers\<rparr>"

text \<open>
  The goroutines that hold the lock of a signer (from the insertion of their entry to
  their \<open>complete\<close>), those that wait on a channel, and among them those that a close
  has released.
\<close>

fun holdsLock :: "string \<Rightarrow> goroutine \<Rightarrow> bool" where
  "holdsLock addr (Computing locked) = (signer locked = addr)"
| "holdsLock addr (Holding ln) = (signer ln = addr)"
| "holdsLock addr _ = False"

fun waitsOn :: "nat \<Rightarrow> goroutine \<Rightarrow> bool" where
  "waitsOn c (Waiting opID addr c') = (c' = c)"
| "waitsOn c _ = False"

definition holders :: "world \<Rightarrow> string \<Rightarrow> nat list" where
  "holders w addr =
     filter (\<lambda>g. holdsLock addr (goroutines w ! g)) [0..<length (goroutines w)]"

definition waiters :: "world \<Rightarrow> nat \<Rightarrow> nat list" where
  "waiters w c = filter (\<lambda>g. waitsOn c (goroutines w ! g)) [0..<length (goroutines w)]"

definition released :: "world \<Rightarrow> nat list" where
  "released w =
     filter (\<lambda>g. case goroutines w ! g of
                   Waiting opID addr c \<Rightarrow>
                     c < length (channels (handler w)) \<and> channels (handler w) ! c
                 | _ \<Rightarrow> False) [0..<length (goroutines w)]"

text \<open>
  The handle a goroutine holds, and the invariant of the lock: the signer of a held
  handle has an entry in the map and the handle's channel is open, and two goroutines
  that hold handles hold them for different signers, with different channels.
\<close>

fun holding :: "goroutine \<Rightarrow> lockedNonce option" where
  "holding (Computing locked) = Some locked"
| "holding (Holding ln) = Some ln"
| "holding _ = None"

definition lockInvariant :: "world \<Rightarrow> bool" where
  "lockInvariant w =
     ((\<forall>g<length (goroutines w). \<forall>ln. holding (goroutines w ! g) = Some ln \<longrightarrow>
          lockedNonces (handler w) (signer ln) \<noteq> None
          \<and> unlocked ln < length (channels (handler w))
          \<and> \<not> channels (handler w) ! unlocked ln)
      \<and> (\<forall>g<length (goroutines w). \<forall>h<length (goroutines w). \<forall>ln ln'.
            holding (goroutines w ! g) = Some ln \<and> holding (goroutines w ! h) = Some ln'
            \<and> g \<noteq> h \<longrightarrow> signer ln \<noteq> signer ln' \<and> unlocked ln \<noteq> unlocked ln'))"

section \<open>Sample values\<close>

text \<open>
  The values of the tests: the signer 0xaaaaa, the gas 100000, the transaction data
  0xabce1234, the default \<open>nonceStateTimeout\<close> of one hour.
\<close>

definition sampleTX :: "string \<Rightarrow> string \<Rightarrow> int \<Rightarrow> time \<Rightarrow> ManagedTX" where
  "sampleTX i addr n c =
     \<lparr>ID = i, Created = c, Updated = c, From = addr, Nonce = n, Status = TxStatusPending,
      TransactionHash = [], FirstSubmit = None, LastSubmit = None, Receipt = None,
      History = [], HistorySummary = [], ErrorMessage = [], Gas = 100000,
      TransactionData = ''0xabce1234''\<rparr>"

definition sampleConnector :: "(error + int) \<Rightarrow> (error + string) \<Rightarrow> ffcapi_API" where
  "sampleConnector nextNonce sent =
     \<lparr>NextNonceForSigner = (\<lambda>addr. nextNonce),
      TransactionPrepare = (\<lambda>req. Inr \<lparr>PreparedGas = 100000, PreparedData = ''0xabce1234''\<rparr>),
      TransactionSend = (\<lambda>m. sent)\<rparr>"

definition sampleToolkit :: "(error + ManagedTX list) \<Rightarrow> (error + int) \<Rightarrow> toolkit" where
  "sampleToolkit listed nextNonce =
     \<lparr>TXPersistence = \<lparr>ListTransactionsByNonce = (\<lambda>addr after limit dir. listed)\<rparr>,
      Connector = sampleConnector nextNonce (Inr ''0xhashA'')\<rparr>"

definition sampleHandler :: simpleTransactionHandler where
  "sampleHandler =
     \<lparr>mux = False, lockedNonces = Map.empty, channels = [],
      nonceStateTimeout = 3600000000000, inflight = [], inflightStale = False\<rparr>"

definition samplePersistence :: "ManagedTX list \<Rightarrow> error option \<Rightarrow> persistence" where
  "samplePersistence txs fault = \<lparr>transactions = txs, readFault = fault, writeFault = fault\<rparr>"

definition samplePending :: "ManagedTX \<Rightarrow> string \<Rightarrow> pendingState" where
  "samplePending m tracked =
     \<lparr>mtx = m, confirmed = False, remove = False, trackingTransactionHash = tracked\<rparr>"


text \<open>The hundred sub-statuses of TestManagedTXSubStatusMaxEntries, one call each.\<close>

definition hundredStatuses :: "(time \<times> string) list" where
  "hundredStatuses = map (\<lambda>i. (int i, fmt_Sprint i)) [0..<100]"

definition sampleRequest :: "string \<Rightarrow> TransactionRequest" where
  "sampleRequest i = \<lparr>RequestID = i, RequestFrom = ''0xaaaaa''\<rparr>"

text \<open>Three callers for the same signer, and a schedule that names the goroutines.\<close>

definition sampleCallers :: "(string \<times> string) list" where
  "sampleCallers =
     [(''ns1/op0'', ''0xaaaaa''), (''ns1/op1'', ''0xaaaaa''), (''ns1/op2'', ''0xaaaaa'')]"

definition sampleSchedule :: "nat list \<Rightarrow> (nat \<times> toolkit \<times> time) list" where
  "sampleSchedule gs = map (\<lambda>g. (g, sampleToolkit (Inr []) (Inr 12345), 0)) gs"

section \<open>The next nonce\<close>

lemma uint_Uint64: "0 \<le> i \<Longrightarrow> uint (Uint64 i) = i mod 2 ^ 64"
  by (simp add: Uint64_def uint_word_of_int take_bit_eq_mod)

lemma uint_Uint64_succ: "0 \<le> i \<Longrightarrow> uint (Uint64 i + 1) = (i + 1) mod 2 ^ 64"
  by (simp add: uint_Uint64 uint_word_ariths mod_add_left_eq)

lemma Uint64_le:
  "0 \<le> i \<Longrightarrow> 0 \<le> j \<Longrightarrow> (Uint64 i \<le> Uint64 j) = (i mod 2 ^ 64 \<le> j mod 2 ^ 64)"
  by (simp add: word_le_def uint_Uint64)

text \<open>
  C1. Whenever the persistence answers, \<open>calcNextNonce\<close> first reads the signer's
  latest transaction (no \<open>after\<close>, limit 1, descending nonce). If there is one and it
  was created less than \<open>nonceStateTimeout\<close> ago, the result is its nonce plus one
  and the connector is not called. Otherwise the connector is asked; if there is a
  stale local transaction and the node's answer is not above its nonce, the result is
  the local nonce plus one, otherwise the node's answer. The nonces are the
  \<open>uint64\<close> values the code computes with (\<open>Uint64()\<close> of the stored numbers).
\<close>

theorem calcNextNonce_decision:
  assumes "ListTransactionsByNonce (TXPersistence tk) addr None 1 SortDirectionDescending
             = Inr txns"
  shows "(txns = t # rest \<and> time_Since now (Created t) < timeout \<longrightarrow>
            calcNextNonce tk now timeout addr =
              ([PersistenceListByNonce addr None 1 SortDirectionDescending],
               Inr (Uint64 (Nonce t) + 1)))
       \<and> (txns = t # rest \<and> \<not> time_Since now (Created t) < timeout
            \<and> NextNonceForSigner (Connector tk) addr = Inr n \<longrightarrow>
            calcNextNonce tk now timeout addr =
              ([PersistenceListByNonce addr None 1 SortDirectionDescending,
                ConnectorNextNonce addr],
               Inr (if Uint64 n \<le> Uint64 (Nonce t) then Uint64 (Nonce t) + 1 else Uint64 n)))
       \<and> (txns = [] \<and> NextNonceForSigner (Connector tk) addr = Inr n \<longrightarrow>
            calcNextNonce tk now timeout addr =
              ([PersistenceListByNonce addr None 1 SortDirectionDescending,
                ConnectorNextNonce addr],
               Inr (Uint64 n)))"
  using assms by (simp add: calcNextNonce_def SortDirection_of_def Let_def)

theorem calcNextNonce_decision_witness:
  "calcNextNonce (sampleToolkit (Inr [sampleTX ''tx1'' ''0xaaaaa'' 99 1000]) (Inr 12345))
      2000 3600000000000 ''0xaaaaa''
     = ([PersistenceListByNonce ''0xaaaaa'' None 1 SortDirectionDescending], Inr 100)
   \<and> calcNextNonce (sampleToolkit (Inr [sampleTX ''tx1'' ''0xaaaaa'' 99 1000]) (Inr 12345))
      3600000002000 3600000000000 ''0xaaaaa''
     = ([PersistenceListByNonce ''0xaaaaa'' None 1 SortDirectionDescending,
         ConnectorNextNonce ''0xaaaaa''], Inr 12345)
   \<and> calcNextNonce (sampleToolkit (Inr [sampleTX ''tx1'' ''0xaaaaa'' 99 1000]) (Inr 42))
      3600000002000 3600000000000 ''0xaaaaa''
     = ([PersistenceListByNonce ''0xaaaaa'' None 1 SortDirectionDescending,
         ConnectorNextNonce ''0xaaaaa''], Inr 100)
   \<and> calcNextNonce (sampleToolkit (Inr []) (Inr 12345)) 2000 3600000000000 ''0xaaaaa''
     = ([PersistenceListByNonce ''0xaaaaa'' None 1 SortDirectionDescending,
         ConnectorNextNonce ''0xaaaaa''], Inr 12345)"
proof -
  let ?t = "sampleTX ''tx1'' ''0xaaaaa'' 99 1000"
  have l1: "ListTransactionsByNonce (TXPersistence (sampleToolkit (Inr [?t]) (Inr 12345)))
              ''0xaaaaa'' None 1 SortDirectionDescending = Inr [?t]"
    by (simp add: sampleToolkit_def)
  have l2: "ListTransactionsByNonce (TXPersistence (sampleToolkit (Inr [?t]) (Inr 42)))
              ''0xaaaaa'' None 1 SortDirectionDescending = Inr [?t]"
    by (simp add: sampleToolkit_def)
  have l3: "ListTransactionsByNonce (TXPersistence (sampleToolkit (Inr []) (Inr 12345)))
              ''0xaaaaa'' None 1 SortDirectionDescending = Inr []"
    by (simp add: sampleToolkit_def)
  have c: "\<And>l r. NextNonceForSigner (Connector (sampleToolkit l r)) ''0xaaaaa'' = r"
    by (simp add: sampleToolkit_def sampleConnector_def)
  have t: "Created ?t = 1000" "Nonce ?t = 99"
    by (simp_all add: sampleTX_def)
  show ?thesis
    using calcNextNonce_decision[OF l1, of ?t "[]" 2000 3600000000000 12345]
          calcNextNonce_decision[OF l1, of ?t "[]" 3600000002000 3600000000000 12345]
          calcNextNonce_decision[OF l2, of ?t "[]" 3600000002000 3600000000000 42]
          calcNextNonce_decision[OF l3, of ?t "[]" 2000 3600000000000 12345]
    by (simp add: c t time_Since_def maxDuration_def minDuration_def Uint64_def)
qed

text \<open>
  C10. The stored nonce and the connector's answer pass through \<open>Uint64()\<close> before
  they are compared and incremented, and the increment is that of a \<open>uint64\<close>. For a
  non-negative stored nonce: a fresh record gives the nonce plus one modulo \<open>2^64\<close>;
  for a stale one the comparison with a non-negative answer of the node is between the
  two numbers modulo \<open>2^64\<close>; and for a stored nonce of at least \<open>2^64 - 1\<close> whatever
  is returned is less than the nonce plus one.
\<close>

theorem calcNextNonce_uint64:
  assumes "ListTransactionsByNonce (TXPersistence tk) addr None 1 SortDirectionDescending
             = Inr (t # rest)"
      and "0 \<le> Nonce t"
  shows "(time_Since now (Created t) < timeout \<longrightarrow>
            (\<exists>calls r. calcNextNonce tk now timeout addr = (calls, Inr r)
                \<and> uint r = (Nonce t + 1) mod 2 ^ 64))
       \<and> (\<not> time_Since now (Created t) < timeout
            \<and> NextNonceForSigner (Connector tk) addr = Inr n \<and> 0 \<le> n \<longrightarrow>
            (\<exists>calls r. calcNextNonce tk now timeout addr = (calls, Inr r)
                \<and> uint r = (if n mod 2 ^ 64 \<le> Nonce t mod 2 ^ 64
                             then (Nonce t + 1) mod 2 ^ 64 else n mod 2 ^ 64)))
       \<and> (2 ^ 64 - 1 \<le> Nonce t \<longrightarrow>
            (\<forall>calls r. calcNextNonce tk now timeout addr = (calls, Inr r) \<longrightarrow>
                uint r < Nonce t + 1))"
proof (intro conjI impI allI)
  assume "time_Since now (Created t) < timeout"
  then show "\<exists>calls r. calcNextNonce tk now timeout addr = (calls, Inr r)
                \<and> uint r = (Nonce t + 1) mod 2 ^ 64"
    using assms by (simp add: calcNextNonce_def SortDirection_of_def Let_def uint_Uint64_succ)
next
  assume "\<not> time_Since now (Created t) < timeout
            \<and> NextNonceForSigner (Connector tk) addr = Inr n \<and> 0 \<le> n"
  then show "\<exists>calls r. calcNextNonce tk now timeout addr = (calls, Inr r)
                \<and> uint r = (if n mod 2 ^ 64 \<le> Nonce t mod 2 ^ 64
                             then (Nonce t + 1) mod 2 ^ 64 else n mod 2 ^ 64)"
    using assms
    by (simp add: calcNextNonce_def SortDirection_of_def Let_def uint_Uint64_succ
          Uint64_le uint_Uint64)
next
  fix calls r
  assume big: "2 ^ 64 - 1 \<le> Nonce t"
     and "calcNextNonce tk now timeout addr = (calls, Inr r)"
  have "uint r < 2 ^ 64" using uint_bounded[of r] by simp
  then show "uint r < Nonce t + 1" using big by linarith
qed

theorem calcNextNonce_uint64_witness:
  "(\<exists>calls. calcNextNonce
        (sampleToolkit (Inr [sampleTX ''tx1'' ''0xaaaaa'' 18446744073709551615 1000]) (Inr 7))
        2000 3600000000000 ''0xaaaaa'' = (calls, Inr 0))
   \<and> (\<exists>calls. calcNextNonce
        (sampleToolkit (Inr [sampleTX ''tx1'' ''0xaaaaa'' 18446744073709551621 1000]) (Inr 10))
        3600000002000 3600000000000 ''0xaaaaa'' = (calls, Inr 10))"
proof -
  let ?a = "sampleTX ''tx1'' ''0xaaaaa'' 18446744073709551615 1000"
  let ?b = "sampleTX ''tx1'' ''0xaaaaa'' 18446744073709551621 1000"
  have la: "ListTransactionsByNonce (TXPersistence (sampleToolkit (Inr [?a]) (Inr 7)))
              ''0xaaaaa'' None 1 SortDirectionDescending = Inr [?a]"
    by (simp add: sampleToolkit_def)
  have lb: "ListTransactionsByNonce (TXPersistence (sampleToolkit (Inr [?b]) (Inr 10)))
              ''0xaaaaa'' None 1 SortDirectionDescending = Inr [?b]"
    by (simp add: sampleToolkit_def)
  have na: "0 \<le> Nonce ?a" and nb: "0 \<le> Nonce ?b"
    by (simp_all add: sampleTX_def)
  have c: "\<And>l r. NextNonceForSigner (Connector (sampleToolkit l r)) ''0xaaaaa'' = r"
    by (simp add: sampleToolkit_def sampleConnector_def)
  have t: "Created ?a = 1000" "Nonce ?a = 18446744073709551615"
          "Created ?b = 1000" "Nonce ?b = 18446744073709551621"
    by (simp_all add: sampleTX_def)
  have u: "\<And>r::uint64. (uint r = 0) = (r = 0)" "\<And>r::uint64. (uint r = 10) = (r = 10)"
    by (simp_all add: word_uint_eq_iff)
  show ?thesis
    using calcNextNonce_uint64[OF la na, of 2000 3600000000000 7]
          calcNextNonce_uint64[OF lb nb, of 3600000002000 3600000000000 10]
    by (simp add: c t u time_Since_def maxDuration_def minDuration_def)
qed

section \<open>The lock of a signer\<close>

lemma assignAndLockNonce_unlocked:
  "\<not> mux sth \<Longrightarrow> lockedNonces sth addr = None \<Longrightarrow>
   assignAndLockNonce tk now sth opID addr =
     (let locked = \<lparr>nsOpID = opID, signer = addr, unlocked = length (channels sth),
                     nonce = 0, spent = None\<rparr>;
          sth1 = sth\<lparr>lockedNonces := (lockedNonces sth)(addr \<mapsto> locked),
                     channels := channels sth @ [False]\<rparr>
      in case calcNextNonce tk now (nonceStateTimeout sth) addr of
           (calls, Inl e) \<Rightarrow>
             (case complete sth1 locked of
                None \<Rightarrow> None
              | Some (sth2, None) \<Rightarrow> Some (sth2, calls, Inl e)
              | Some (sth2, Some p) \<Rightarrow> Some (sth2, calls, Inl p))
         | (calls, Inr nextNonce) \<Rightarrow>
             Some (sth1, calls, Inr (locked\<lparr>nonce := nextNonce\<rparr>)))"
  by (subst assignAndLockNonce.simps) simp

lemma assignAndLockNonce_blocked:
  "mux sth \<Longrightarrow> assignAndLockNonce tk now sth opID addr = None"
  by (subst assignAndLockNonce.simps) simp

lemma assignAndLockNonce_returns_unlocked:
  assumes "assignAndLockNonce tk now sth opID addr = Some r"
  shows "lockedNonces sth addr = None \<and> \<not> mux sth"
  using assms
  apply (rule assignAndLockNonce.raw_induct
           [where P = "\<lambda>tk now sth opID addr r. lockedNonces sth addr = None \<and> \<not> mux sth",
            rotated])
  subgoal for f tk now sth opID addr y
    by (cases "lockedNonces sth addr"; cases "mux sth") auto
  done

lemma complete_fresh:
  "\<not> mux sth \<Longrightarrow> lockedNonces sth addr = None \<Longrightarrow>
   complete (sth\<lparr>lockedNonces := (lockedNonces sth)(addr \<mapsto> locked),
                 channels := channels sth @ [False]\<rparr>)
      \<lparr>nsOpID = opID, signer = addr, unlocked = length (channels sth), nonce = n, spent = sp\<rparr>
   = Some (sth\<lparr>channels := channels sth @ [True]\<rparr>, None)"
  by (simp add: complete_def Let_def fun_upd_idem)

lemma assignAndLockNonce_success:
  assumes "assignAndLockNonce tk now sth opID addr = Some (sth1, calls, Inr ln)"
  shows "sth1 = sth\<lparr>lockedNonces := (lockedNonces sth)(addr \<mapsto>
                    \<lparr>nsOpID = opID, signer = addr, unlocked = length (channels sth),
                     nonce = 0, spent = None\<rparr>),
                  channels := channels sth @ [False]\<rparr>
       \<and> (\<exists>n. ln = \<lparr>nsOpID = opID, signer = addr, unlocked = length (channels sth),
                      nonce = n, spent = None\<rparr>
              \<and> calcNextNonce tk now (nonceStateTimeout sth) addr = (calls, Inr n))"
proof -
  from assignAndLockNonce_returns_unlocked[OF assms]
  have free: "lockedNonces sth addr = None" and m: "\<not> mux sth" by simp_all
  show ?thesis
    using assms
    by (auto simp: assignAndLockNonce_unlocked[OF m free] Let_def complete_fresh[OF m free]
             split: prod.splits sum.splits)
qed

lemma calcNextNonce_failure:
  assumes "ListTransactionsByNonce (TXPersistence tk) addr None 1 SortDirectionDescending = Inl e
         \<or> (\<exists>txns. ListTransactionsByNonce (TXPersistence tk) addr None 1
                       SortDirectionDescending = Inr txns
              \<and> (\<forall>t rest. txns = t # rest \<longrightarrow> \<not> time_Since now (Created t) < timeout)
              \<and> NextNonceForSigner (Connector tk) addr = Inl e)"
  shows "\<exists>calls. calcNextNonce tk now timeout addr = (calls, Inl e)"
  using assms
  by (auto simp: calcNextNonce_def SortDirection_of_def Let_def split: list.splits)

text \<open>
  C6. A call of \<open>assignAndLockNonce\<close> that takes the lock of the signer (the mutex
  of the handler is free, as it is between any two critical sections that ran to their
  end) and whose persistence query fails, or whose connector query (made when there is
  no fresh local record) fails, returns that error; the entry of the signer has been
  removed by \<open>complete\<close> and its channel closed, so the handler's state is the one
  before the call but for the spent channel: the signer is unlocked and the mutex is
  free. \<open>HandleNewTransaction\<close> returns the same error at once and leaves the
  persistence as it was, so that no nonce is consumed.
\<close>

theorem assignAndLockNonce_failure:
  assumes free: "lockedNonces sth addr = None" "\<not> mux sth"
      and fails:
        "ListTransactionsByNonce (TXPersistence tk) addr None 1 SortDirectionDescending = Inl e
         \<or> (\<exists>txns. ListTransactionsByNonce (TXPersistence tk) addr None 1
                       SortDirectionDescending = Inr txns
              \<and> (\<forall>t rest. txns = t # rest \<longrightarrow>
                     \<not> time_Since now (Created t) < nonceStateTimeout sth)
              \<and> NextNonceForSigner (Connector tk) addr = Inl e)"
  shows "(\<exists>calls. assignAndLockNonce tk now sth opID addr =
            Some (sth\<lparr>channels := channels sth @ [True]\<rparr>, calls, Inl e))
       \<and> (tk = toolkit_of p conn \<and> RequestID req = opID \<and> RequestFrom req = addr
            \<and> TransactionPrepare conn req = Inr prep \<longrightarrow>
          HandleNewTransaction conn now (sth, p) req =
            Some ((sth\<lparr>channels := channels sth @ [True]\<rparr>, p), Inl e))"
proof -
  from calcNextNonce_failure[OF fails] obtain calls where
    c: "calcNextNonce tk now (nonceStateTimeout sth) addr = (calls, Inl e)" by blast
  have a: "assignAndLockNonce tk now sth opID addr =
            Some (sth\<lparr>channels := channels sth @ [True]\<rparr>, calls, Inl e)"
    using free c by (simp add: assignAndLockNonce_unlocked complete_fresh)
  have "HandleNewTransaction conn now (sth, p) req =
            Some ((sth\<lparr>channels := channels sth @ [True]\<rparr>, p), Inl e)"
    if "tk = toolkit_of p conn \<and> RequestID req = opID \<and> RequestFrom req = addr
            \<and> TransactionPrepare conn req = Inr prep"
    using that a by (auto simp: HandleNewTransaction_def)
  with a show ?thesis by blast
qed

theorem assignAndLockNonce_failure_witness:
  "HandleNewTransaction (sampleConnector (Inr 12345) (Inr ''0xhashA'')) 0
      (sampleHandler, samplePersistence [] (Some (Error ''pop'')))
      \<lparr>RequestID = ''ns1/op1'', RequestFrom = ''0xaaaaa''\<rparr>
     = Some ((sampleHandler\<lparr>channels := [True]\<rparr>, samplePersistence [] (Some (Error ''pop''))),
             Inl (Error ''pop''))
   \<and> HandleNewTransaction (sampleConnector (Inl (Error ''pop'')) (Inr ''0xhashA'')) 0
      (sampleHandler, samplePersistence [] None)
      \<lparr>RequestID = ''ns1/op1'', RequestFrom = ''0xaaaaa''\<rparr>
     = Some ((sampleHandler\<lparr>channels := [True]\<rparr>, samplePersistence [] None),
             Inl (Error ''pop''))"
proof -
  let ?req = "\<lparr>RequestID = ''ns1/op1'', RequestFrom = ''0xaaaaa''\<rparr>"
  let ?c1 = "sampleConnector (Inr 12345) (Inr ''0xhashA'')"
  let ?p1 = "samplePersistence [] (Some (Error ''pop''))"
  let ?c2 = "sampleConnector (Inl (Error ''pop'')) (Inr ''0xhashA'')"
  let ?p2 = "samplePersistence [] None"
  have free: "lockedNonces sampleHandler ''0xaaaaa'' = None" "\<not> mux sampleHandler"
    by (simp_all add: sampleHandler_def)
  have f1: "ListTransactionsByNonce (TXPersistence (toolkit_of ?p1 ?c1)) ''0xaaaaa'' None 1
              SortDirectionDescending = Inl (Error ''pop'')
         \<or> (\<exists>txns. ListTransactionsByNonce (TXPersistence (toolkit_of ?p1 ?c1)) ''0xaaaaa''
                       None 1 SortDirectionDescending = Inr txns
              \<and> (\<forall>t rest. txns = t # rest \<longrightarrow>
                     \<not> time_Since 0 (Created t) < nonceStateTimeout sampleHandler)
              \<and> NextNonceForSigner (Connector (toolkit_of ?p1 ?c1)) ''0xaaaaa''
                  = Inl (Error ''pop''))"
    by (simp add: toolkit_of_def store_ListTransactionsByNonce_def samplePersistence_def)
  have f2: "ListTransactionsByNonce (TXPersistence (toolkit_of ?p2 ?c2)) ''0xaaaaa'' None 1
              SortDirectionDescending = Inl (Error ''pop'')
         \<or> (\<exists>txns. ListTransactionsByNonce (TXPersistence (toolkit_of ?p2 ?c2)) ''0xaaaaa''
                       None 1 SortDirectionDescending = Inr txns
              \<and> (\<forall>t rest. txns = t # rest \<longrightarrow>
                     \<not> time_Since 0 (Created t) < nonceStateTimeout sampleHandler)
              \<and> NextNonceForSigner (Connector (toolkit_of ?p2 ?c2)) ''0xaaaaa''
                  = Inl (Error ''pop''))"
    by (simp add: toolkit_of_def store_ListTransactionsByNonce_def samplePersistence_def
          sampleConnector_def)
  have prep: "\<And>c s. TransactionPrepare (sampleConnector c s) ?req
                 = Inr \<lparr>PreparedGas = 100000, PreparedData = ''0xabce1234''\<rparr>"
    by (simp add: sampleConnector_def)
  show ?thesis
    using assignAndLockNonce_failure[OF free f1, of "''ns1/op1''" ?p1 ?c1 ?req]
          assignAndLockNonce_failure[OF free f2, of "''ns1/op1''" ?p2 ?c2 ?req]
    by (simp add: prep sampleHandler_def)
qed

lemma complete_closed:
  assumes "\<not> mux sth" and "unlocked ln < length (channels sth)"
      and "channels sth ! unlocked ln"
  shows "complete sth ln =
           Some (sth\<lparr>mux := True, lockedNonces := (lockedNonces sth)(signer ln := None)\<rparr>,
                 Some (Panic ''close of closed channel''))"
  using assms by (simp add: complete_def Let_def)

lemma complete_blocked: "mux sth \<Longrightarrow> complete sth ln = None"
  by (simp add: complete_def)

text \<open>
  C9. \<open>complete\<close> may be called once on a handle that \<open>assignAndLockNonce\<close> returned.
  The first call removes the entry of the signer and closes the channel. A second call
  on the same handle panics on the close of the closed channel, at once or after a
  later caller has taken the lock of the signer; in the latter case it has deleted the
  entry of that later holder before it panics, and the later holder's channel is not
  closed. The panic leaves the mutex of the handler locked: the later holder's own
  \<open>complete\<close> and every later \<open>assignAndLockNonce\<close> block. The later caller is one
  whose \<open>calcNextNonce\<close> succeeds.
\<close>

theorem complete_twice:
  assumes first: "assignAndLockNonce tk now sth opID addr = Some (sth1, calls, Inr ln)"
      and later: "calcNextNonce tk' now' (nonceStateTimeout sth) addr = (calls', Inr n')"
  shows "(let sth2 = sth\<lparr>channels := channels sth @ [True]\<rparr>;
              l' = \<lparr>nsOpID = opID', signer = addr, unlocked = Suc (length (channels sth)),
                    nonce = 0, spent = None\<rparr>;
              sth3 = sth\<lparr>lockedNonces := (lockedNonces sth)(addr \<mapsto> l'),
                         channels := channels sth @ [True, False]\<rparr>;
              sth4 = sth3\<lparr>mux := True, lockedNonces := (lockedNonces sth3)(addr := None)\<rparr>
          in signer ln = addr \<and> unlocked ln = length (channels sth)
             \<and> lockedNonces sth1 addr \<noteq> None \<and> \<not> channels sth1 ! unlocked ln
             \<and> complete sth1 ln = Some (sth2, None)
             \<and> lockedNonces sth2 addr = None \<and> channels sth2 ! unlocked ln
             \<and> complete sth2 ln =
                 Some (sth2\<lparr>mux := True\<rparr>, Some (Panic ''close of closed channel''))
             \<and> assignAndLockNonce tk' now' sth2 opID' addr
                 = Some (sth3, calls', Inr (l'\<lparr>nonce := n'\<rparr>))
             \<and> lockedNonces sth3 addr = Some l'
             \<and> complete sth3 ln = Some (sth4, Some (Panic ''close of closed channel''))
             \<and> lockedNonces sth4 addr = None \<and> \<not> channels sth4 ! unlocked l'
             \<and> complete sth4 (l'\<lparr>nonce := n'\<rparr>) = None
             \<and> assignAndLockNonce tk'' now'' sth4 opID'' addr'' = None)"
proof -
  from assignAndLockNonce_returns_unlocked[OF first]
  have free: "lockedNonces sth addr = None" and m: "\<not> mux sth" by simp_all
  let ?sth2 = "sth\<lparr>channels := channels sth @ [True]\<rparr>"
  let ?l = "\<lparr>nsOpID = opID', signer = addr, unlocked = Suc (length (channels sth)),
                    nonce = 0, spent = None\<rparr>"
  let ?sth3 = "sth\<lparr>lockedNonces := (lockedNonces sth)(addr \<mapsto> ?l),
                         channels := channels sth @ [True, False]\<rparr>"
  let ?sth4 = "?sth3\<lparr>mux := True, lockedNonces := (lockedNonces ?sth3)(addr := None)\<rparr>"
  from assignAndLockNonce_success[OF first] obtain n where
    s1: "sth1 = sth\<lparr>lockedNonces := (lockedNonces sth)(addr \<mapsto>
                    \<lparr>nsOpID = opID, signer = addr, unlocked = length (channels sth),
                     nonce = 0, spent = None\<rparr>),
                  channels := channels sth @ [False]\<rparr>"
    and ln: "ln = \<lparr>nsOpID = opID, signer = addr, unlocked = length (channels sth),
                      nonce = n, spent = None\<rparr>"
    by blast
  have a: "signer ln = addr" "unlocked ln = length (channels sth)"
          "lockedNonces sth1 addr \<noteq> None" "\<not> channels sth1 ! unlocked ln"
    by (simp_all add: s1 ln)
  have c1: "complete sth1 ln = Some (?sth2, None)"
    unfolding s1 ln using m free by (rule complete_fresh)
  have b: "lockedNonces ?sth2 addr = None" "channels ?sth2 ! unlocked ln"
    using free by (simp_all add: ln)
  have m2: "\<not> mux ?sth2" using m by simp
  have c2: "complete ?sth2 ln =
              Some (?sth2\<lparr>mux := True\<rparr>, Some (Panic ''close of closed channel''))"
    using complete_closed[OF m2, of ln] free by (simp add: ln fun_upd_idem)
  have a2: "assignAndLockNonce tk' now' ?sth2 opID' addr
              = Some (?sth3, calls', Inr (?l\<lparr>nonce := n'\<rparr>))"
    using later by (simp add: assignAndLockNonce_unlocked[OF m2 b(1)])
  have e3: "lockedNonces ?sth3 addr = Some ?l" by simp
  have m3: "\<not> mux ?sth3" using m by simp
  have c3: "complete ?sth3 ln = Some (?sth4, Some (Panic ''close of closed channel''))"
    using complete_closed[OF m3, of ln] by (simp add: ln nth_append)
  have d: "lockedNonces ?sth4 addr = None" "\<not> channels ?sth4 ! unlocked ?l"
    by (simp_all add: nth_append)
  have blocked: "complete ?sth4 (?l\<lparr>nonce := n'\<rparr>) = None"
      "assignAndLockNonce tk'' now'' ?sth4 opID'' addr'' = None"
    by (simp_all add: complete_blocked assignAndLockNonce_blocked)
  from a c1 b c2 a2 e3 c3 d blocked show ?thesis
    unfolding Let_def by blast
qed

theorem complete_twice_witness:
  "complete
     (sampleHandler\<lparr>lockedNonces := [''0xaaaaa'' \<mapsto>
          \<lparr>nsOpID = ''op1'', signer = ''0xaaaaa'', unlocked = 0, nonce = 0, spent = None\<rparr>],
        channels := [False]\<rparr>)
     \<lparr>nsOpID = ''op1'', signer = ''0xaaaaa'', unlocked = 0, nonce = 12345, spent = None\<rparr>
   = Some (sampleHandler\<lparr>channels := [True]\<rparr>, None)
   \<and> complete (sampleHandler\<lparr>channels := [True]\<rparr>)
     \<lparr>nsOpID = ''op1'', signer = ''0xaaaaa'', unlocked = 0, nonce = 12345, spent = None\<rparr>
   = Some (sampleHandler\<lparr>mux := True, channels := [True]\<rparr>,
           Some (Panic ''close of closed channel''))
   \<and> complete
     (sampleHandler\<lparr>lockedNonces := [''0xaaaaa'' \<mapsto>
          \<lparr>nsOpID = ''op2'', signer = ''0xaaaaa'', unlocked = 1, nonce = 0, spent = None\<rparr>],
        channels := [True, False]\<rparr>)
     \<lparr>nsOpID = ''op1'', signer = ''0xaaaaa'', unlocked = 0, nonce = 12345, spent = None\<rparr>
   = Some (sampleHandler\<lparr>mux := True, lockedNonces := Map.empty, channels := [True, False]\<rparr>,
      Some (Panic ''close of closed channel''))
   \<and> assignAndLockNonce (sampleToolkit (Inr []) (Inr 12345)) 9
        (sampleHandler\<lparr>mux := True, lockedNonces := Map.empty, channels := [True, False]\<rparr>)
        ''op3'' ''0xbbbbb'' = None"
proof -
  let ?tk = "sampleToolkit (Inr []) (Inr 12345)"
  let ?calls = "[PersistenceListByNonce ''0xaaaaa'' None 1 SortDirectionDescending,
        ConnectorNextNonce ''0xaaaaa'']"
  have calc: "calcNextNonce ?tk t (nonceStateTimeout sampleHandler) ''0xaaaaa''
                = (?calls, Inr 12345)" for t
    by (simp add: sampleToolkit_def sampleConnector_def calcNextNonce_def SortDirection_of_def
          Uint64_def Let_def)
  have first: "assignAndLockNonce ?tk 0 sampleHandler ''op1'' ''0xaaaaa''
     = Some (sampleHandler\<lparr>lockedNonces := [''0xaaaaa'' \<mapsto>
          \<lparr>nsOpID = ''op1'', signer = ''0xaaaaa'', unlocked = 0, nonce = 0, spent = None\<rparr>],
        channels := [False]\<rparr>, ?calls,
        Inr \<lparr>nsOpID = ''op1'', signer = ''0xaaaaa'', unlocked = 0, nonce = 12345,
             spent = None\<rparr>)"
    using calc[of 0]
    by (simp add: assignAndLockNonce_unlocked sampleHandler_def)
  from complete_twice[OF first calc[of 5], of "''op2''" ?tk 9 "''op3''" "''0xbbbbb''"]
  show ?thesis
    by (simp add: Let_def sampleHandler_def)
qed

section \<open>The history of a transaction\<close>

lemma SetSubStatus_tail:
  assumes "0 < k"
  shows "History (SetSubStatus k now m s) \<noteq> []
       \<and> SubStatus (last (History (SetSubStatus k now m s))) = s"
proof (cases "History m \<noteq> [] \<and> SubStatus (last (History m)) = s")
  case True
  then show ?thesis using assms by (simp add: SetSubStatus_def)
next
  case False
  show ?thesis
  proof (cases "History m")
    case Nil
    then show ?thesis using assms False by (simp add: SetSubStatus_def Let_def)
  next
    case (Cons h hs)
    then show ?thesis using assms False by (simp add: SetSubStatus_def Let_def)
  qed
qed

lemma SetSubStatus_again:
  "SetSubStatus k now' (SetSubStatus k now m s) s = SetSubStatus k now m s"
proof (cases "k = 0")
  case True
  then show ?thesis by (simp add: SetSubStatus_def)
next
  case False
  then have "0 < k" by simp
  from SetSubStatus_tail[OF this, of now m s] show ?thesis
    by (simp add: SetSubStatus_def[of k now' "SetSubStatus k now m s" s])
qed

lemma setSubStatuses_again:
  "setSubStatuses k (SetSubStatus k now m s) (map (\<lambda>t. (t, s)) ts) = SetSubStatus k now m s"
  by (induction ts) (simp_all add: SetSubStatus_again)

lemma SetSubStatus_noop:
  "History m \<noteq> [] \<and> SubStatus (last (History m)) = s \<Longrightarrow> SetSubStatus k now m s = m"
  by (simp add: SetSubStatus_def)

lemma SetSubStatus_changes:
  "History (SetSubStatus k now m s) \<noteq> History m \<Longrightarrow>
   History m = [] \<or> SubStatus (last (History m)) \<noteq> s"
  using SetSubStatus_noop[of m s k now] by auto

text \<open>
  C7. \<open>SetSubStatus\<close> with the status of the current tail of the history returns the
  transaction unchanged. Whatever the transaction, after one call with a status the
  further calls with the same status change nothing, so the history does not grow; and
  a call changes the history only when the history is empty or its tail has another
  status.
\<close>

theorem SetSubStatus_same_status:
  "(History m \<noteq> [] \<and> SubStatus (last (History m)) = s \<longrightarrow> SetSubStatus k now m s = m)
   \<and> setSubStatuses k (SetSubStatus k now m s) (map (\<lambda>t. (t, s)) ts)
       = SetSubStatus k now m s
   \<and> (History (SetSubStatus k now m s) \<noteq> History m \<longrightarrow>
        History m = [] \<or> SubStatus (last (History m)) \<noteq> s)"
  using SetSubStatus_noop[of m s k now] SetSubStatus_changes[of k now m s]
        setSubStatuses_again[of k now m s ts]
  by blast

theorem SetSubStatus_same_status_witness:
  "SetSubStatus 50 2 (SetSubStatus 50 1 (sampleTX ''ns1/tx1'' ''0xaaaaa'' 12345 0) ''Received'')
      ''Received''
     = SetSubStatus 50 1 (sampleTX ''ns1/tx1'' ''0xaaaaa'' 12345 0) ''Received''
   \<and> map SubStatus (History (setSubStatuses 50
         (SetSubStatus 50 1 (sampleTX ''ns1/tx1'' ''0xaaaaa'' 12345 0) ''Received'')
         (map (\<lambda>t. (t, ''Received'')) [2, 3, 4]))) = [''Received'']
   \<and> map SubStatus (History (SetSubStatus 50 5
         (SetSubStatus 50 1 (sampleTX ''ns1/tx1'' ''0xaaaaa'' 12345 0) ''Received'')
         ''Tracking'')) = [''Received'', ''Tracking'']"
proof -
  let ?fresh = "sampleTX ''ns1/tx1'' ''0xaaaaa'' 12345 0"
  let ?rcvd = "SetSubStatus 50 1 ?fresh ''Received''"
  have h: "History ?rcvd = [\<lparr>SubStatus = ''Received'', Time = 1, Actions = []\<rparr>]"
    by (simp add: SetSubStatus_def sampleTX_def Let_def)
  have t: "map SubStatus (History (SetSubStatus 50 5 ?rcvd ''Tracking''))
             = [''Received'', ''Tracking'']"
    by (simp add: SetSubStatus_def[of 50 5] h Let_def)
  have pre: "History ?rcvd \<noteq> [] \<and> SubStatus (last (History ?rcvd)) = ''Received''"
    by (simp add: h)
  from SetSubStatus_same_status[of ?rcvd "''Received''" 50 2 "[2, 3, 4]"] pre
  have once: "SetSubStatus 50 2 ?rcvd ''Received'' = ?rcvd" by blast
  from SetSubStatus_same_status[of ?fresh "''Received''" 50 1 "[2, 3, 4]"]
  have more: "setSubStatuses 50 ?rcvd (map (\<lambda>t. (t, ''Received'')) [2, 3, 4]) = ?rcvd" by blast
  have "map SubStatus (History (setSubStatuses 50 ?rcvd (map (\<lambda>t. (t, ''Received'')) [2, 3, 4])))
          = [''Received'']"
    unfolding more h by simp
  with once t show ?thesis by blast
qed

lemma SetSubStatus_bounded:
  assumes "length (History m) \<le> k"
  shows "length (History (SetSubStatus k now m s)) \<le> k"
proof (cases "k = 0 \<or> (History m \<noteq> [] \<and> SubStatus (last (History m)) = s)")
  case True
  then have "SetSubStatus k now m s = m"
    unfolding SetSubStatus_def by (cases "k = 0") simp_all
  then show ?thesis using assms by simp
next
  case False
  then show ?thesis using assms by (simp add: SetSubStatus_def Let_def)
qed

lemma setSubStatuses_bounded:
  "length (History m) \<le> k \<Longrightarrow> length (History (setSubStatuses k m calls)) \<le> k"
  by (induction calls arbitrary: m) (auto simp: SetSubStatus_bounded)

lemma SetSubStatus_evicts:
  assumes "0 < k" and "length (History m) = k" and "SubStatus (last (History m)) \<noteq> s"
  shows "History (SetSubStatus k now m s)
           = tl (History m) @ [\<lparr>SubStatus = s, Time = now, Actions = []\<rparr>]"
proof -
  have "History m \<noteq> []" using assms(1,2) by auto
  then show ?thesis using assms by (simp add: SetSubStatus_def Let_def)
qed

lemma countSummary_new:
  "s \<notin> SummaryStatus ` set es \<Longrightarrow>
   countSummary now s es = es @ [\<lparr>SummaryStatus = s, SummaryAction = [], SummaryCount = 1,
       SummaryFirstOccurrence = now, SummaryLastOccurrence = now\<rparr>]"
  by (induction es) auto

lemma SetSubStatus_new:
  assumes k: "0 < k"
      and h: "map SubStatus (History m) = drop (length seen - k) seen"
      and sm: "map SummaryStatus (HistorySummary m) = seen"
      and new: "s \<notin> set seen"
  shows "map SubStatus (History (SetSubStatus k now m s))
           = drop (length (seen @ [s]) - k) (seen @ [s])
       \<and> map SummaryStatus (HistorySummary (SetSubStatus k now m s)) = seen @ [s]"
proof -
  have notin: "s \<notin> set (map SubStatus (History m))"
    using new h by (metis in_set_dropD)
  have tail: "\<not> (History m \<noteq> [] \<and> SubStatus (last (History m)) = s)"
    using notin by (metis last_in_set image_eqI list.set_map)
  have sm': "s \<notin> SummaryStatus ` set (HistorySummary m)"
    using new sm by (metis list.set_map)
  have len: "length (History m) = length seen - (length seen - k)"
    using h by (metis length_drop length_map)
  show ?thesis
  proof (cases "length seen < k")
    case True
    then have "length (History m) < k" using len by simp
    moreover have "map SubStatus (History m) = seen" using h True by simp
    ultimately show ?thesis
      using k tail sm True by (simp add: SetSubStatus_def Let_def countSummary_new[OF sm'])
  next
    case False
    then have full: "length (History m) = k" using len by simp
    then have ne: "History m \<noteq> []" using k by auto
    have "map SubStatus (tl (History m @ [\<lparr>SubStatus = s, Time = now, Actions = []\<rparr>]))
            = tl (drop (length seen - k) seen) @ [s]"
      using ne h by (simp add: map_tl[symmetric] del: map_tl) (metis map_tl)
    also have "tl (drop (length seen - k) seen) = drop (Suc (length seen - k)) seen"
      by (simp add: drop_Suc tl_drop)
    also have "drop (Suc (length seen - k)) seen @ [s]
                 = drop (length (seen @ [s]) - k) (seen @ [s])"
      using False k by (simp add: Suc_diff_le)
    finally show ?thesis
      using k tail sm full by (simp add: SetSubStatus_def Let_def countSummary_new[OF sm'])
  qed
qed

lemma setSubStatuses_distinct:
  assumes "0 < k"
  shows "map SubStatus (History m) = drop (length seen - k) seen \<Longrightarrow>
         map SummaryStatus (HistorySummary m) = seen \<Longrightarrow>
         distinct (seen @ map snd calls) \<Longrightarrow>
         map SubStatus (History (setSubStatuses k m calls))
           = drop (length (seen @ map snd calls) - k) (seen @ map snd calls)
         \<and> map SummaryStatus (HistorySummary (setSubStatuses k m calls))
           = seen @ map snd calls"
proof (induction calls arbitrary: m seen)
  case Nil
  then show ?case by simp
next
  case (Cons c calls)
  obtain now s where c: "c = (now, s)" by (cases c)
  have new: "s \<notin> set seen" using Cons.prems(3) c by auto
  from SetSubStatus_new[OF assms Cons.prems(1) Cons.prems(2) new, of now]
  have step: "map SubStatus (History (SetSubStatus k now m s))
           = drop (length (seen @ [s]) - k) (seen @ [s])"
     "map SummaryStatus (HistorySummary (SetSubStatus k now m s)) = seen @ [s]"
    by simp_all
  have d: "distinct ((seen @ [s]) @ map snd calls)" using Cons.prems(3) c by simp
  from Cons.IH[OF step d] show ?case by (simp add: c)
qed

text \<open>
  C3. A history within the bound \<open>maxHistoryCount\<close> stays within it through any run
  of \<open>SetSubStatus\<close> calls. Once the bound is reached, a call with a new status drops
  the oldest entry and appends the new one. The summary is not cut: from a transaction
  with no history, calls with pairwise different statuses leave as many history entries
  as there were calls, at most \<open>maxHistoryCount\<close>, and one summary entry per call.
  With \<open>maxHistoryCount = 50\<close> and a hundred statuses: 50 and 100.
\<close>

theorem history_bounded:
  "(length (History m) \<le> k \<longrightarrow> length (History (setSubStatuses k m calls)) \<le> k)
   \<and> (0 < k \<and> length (History m) = k \<and> SubStatus (last (History m)) \<noteq> s \<longrightarrow>
        History (SetSubStatus k now m s)
          = tl (History m) @ [\<lparr>SubStatus = s, Time = now, Actions = []\<rparr>])
   \<and> (0 < k \<and> History m = [] \<and> HistorySummary m = [] \<and> distinct (map snd calls) \<longrightarrow>
        length (History (setSubStatuses k m calls)) = min (length calls) k
        \<and> length (HistorySummary (setSubStatuses k m calls)) = length calls)"
proof (intro conjI impI)
  assume "length (History m) \<le> k"
  then show "length (History (setSubStatuses k m calls)) \<le> k"
    by (rule setSubStatuses_bounded)
next
  assume "0 < k \<and> length (History m) = k \<and> SubStatus (last (History m)) \<noteq> s"
  then show "History (SetSubStatus k now m s)
          = tl (History m) @ [\<lparr>SubStatus = s, Time = now, Actions = []\<rparr>]"
    by (simp add: SetSubStatus_evicts)
next
  assume a: "0 < k \<and> History m = [] \<and> HistorySummary m = [] \<and> distinct (map snd calls)"
  then have k: "0 < k" by simp
  have r: "map SubStatus (History (setSubStatuses k m calls))
             = drop (length ([] @ map snd calls) - k) ([] @ map snd calls)
         \<and> map SummaryStatus (HistorySummary (setSubStatuses k m calls))
             = [] @ map snd calls"
    using a by (intro setSubStatuses_distinct[OF k]) simp_all
  from r have "length (map SubStatus (History (setSubStatuses k m calls)))
                 = length (drop (length calls - k) (map snd calls))" by simp
  then show "length (History (setSubStatuses k m calls)) = min (length calls) k"
    by (simp add: min_def)
  from r have "length (map SummaryStatus (HistorySummary (setSubStatuses k m calls)))
                 = length (map snd calls)" by simp
  then show "length (HistorySummary (setSubStatuses k m calls)) = length calls"
    by simp
qed

lemma hundredStatuses_distinct: "distinct (map snd hundredStatuses)"
proof -
  have "map snd hundredStatuses = map fmt_Sprint [0..<100]"
    by (simp add: hundredStatuses_def comp_def)
  moreover have "distinct (map fmt_Sprint [0..<100])"
    by code_simp
  ultimately show ?thesis by simp
qed

theorem history_bounded_witness:
  "length (History (setSubStatuses 50 (sampleTX ''ns1/tx1'' ''0xaaaaa'' 12345 0)
      hundredStatuses)) = 50
   \<and> length (HistorySummary (setSubStatuses 50 (sampleTX ''ns1/tx1'' ''0xaaaaa'' 12345 0)
      hundredStatuses)) = 100
   \<and> History (SetSubStatus 1 7
        (SetSubStatus 1 5 (sampleTX ''ns1/tx1'' ''0xaaaaa'' 12345 0) ''Received'') ''Tracking'')
      = [\<lparr>SubStatus = ''Tracking'', Time = 7, Actions = []\<rparr>]"
proof -
  let ?fresh = "sampleTX ''ns1/tx1'' ''0xaaaaa'' 12345 0"
  let ?rcvd = "SetSubStatus 1 5 ?fresh ''Received''"
  have e: "History ?fresh = []" "HistorySummary ?fresh = []"
    by (simp_all add: sampleTX_def)
  have n: "length hundredStatuses = 100"
    by (simp add: hundredStatuses_def)
  have h1: "History ?rcvd = [\<lparr>SubStatus = ''Received'', Time = 5, Actions = []\<rparr>]"
    by (simp add: SetSubStatus_def e Let_def)
  show ?thesis
    using history_bounded[of ?fresh 50 hundredStatuses "''Tracking''" 7]
          history_bounded[of ?rcvd 1 "[]" "''Tracking''" 7]
          hundredStatuses_distinct e n h1
    by simp
qed

section \<open>Resubmission\<close>




section \<open>The Delete request\<close>

lemma find_markRemoved:
  "find (\<lambda>q. ID (mtx q) = i) (markRemoved i xs)
     = map_option (\<lambda>q. q\<lparr>remove := True\<rparr>) (find (\<lambda>q. ID (mtx q) = i) xs)"
  by (induction xs) auto

lemma markRemoved_absent:
  "find (\<lambda>q. ID (mtx q) = i) xs = None \<Longrightarrow> markRemoved i xs = xs"
  by (induction xs) (auto split: if_splits)

text \<open>
  C5, as the claim states it, fails for a transaction in flight: the request itself
  deletes the transaction from the persistence. With the in-flight set and the mocked
  persistence of TestExecPolicyDeleteInflightSync, after the one Delete request the
  response is OK, the flag \<open>remove\<close> is set and the persistence has no transaction
  left.
\<close>

theorem delete_inflight_counterexample:
  "map status (snd (processPolicyAPIRequests
       (sampleHandler\<lparr>inflight := [samplePending (sampleTX ''ns1/tx1'' ''0xaaaaa'' 12345 0) []]\<rparr>,
        samplePersistence [sampleTX ''ns1/tx1'' ''0xaaaaa'' 12345 0] None)
       [\<lparr>requestType = policyEngineAPIRequestTypeDelete, txID = ''ns1/tx1''\<rparr>]))
     = [http_StatusOK]
   \<and> map remove (inflight (fst (fst (processPolicyAPIRequests
       (sampleHandler\<lparr>inflight := [samplePending (sampleTX ''ns1/tx1'' ''0xaaaaa'' 12345 0) []]\<rparr>,
        samplePersistence [sampleTX ''ns1/tx1'' ''0xaaaaa'' 12345 0] None)
       [\<lparr>requestType = policyEngineAPIRequestTypeDelete, txID = ''ns1/tx1''\<rparr>]))))
     = [True]
   \<and> transactions (snd (fst (processPolicyAPIRequests
       (sampleHandler\<lparr>inflight := [samplePending (sampleTX ''ns1/tx1'' ''0xaaaaa'' 12345 0) []]\<rparr>,
        samplePersistence [sampleTX ''ns1/tx1'' ''0xaaaaa'' 12345 0] None)
       [\<lparr>requestType = policyEngineAPIRequestTypeDelete, txID = ''ns1/tx1''\<rparr>])))
     = []
   \<and> transactions (snd (fst (processPolicyAPIRequests
       (sampleHandler\<lparr>inflight := [samplePending (sampleTX ''ns1/tx1'' ''0xaaaaa'' 12345 0) []]\<rparr>,
        samplePersistence [sampleTX ''ns1/tx1'' ''0xaaaaa'' 12345 0] None)
       [\<lparr>requestType = policyEngineAPIRequestTypeDelete, txID = ''ns1/tx1''\<rparr>])))
     \<noteq> [sampleTX ''ns1/tx1'' ''0xaaaaa'' 12345 0]"
  by (simp add: processPolicyAPIRequest_def sampleHandler_def samplePending_def
        samplePersistence_def sampleTX_def store_DeleteTransaction_def)

text \<open>
  C5, amended. For a Delete request, the calls of the persistence succeeding: if the
  transaction is in the in-flight set, it is deleted from the persistence during the
  request, the flag \<open>remove\<close> of its record is set and the response is OK; if it is
  not in flight and the persistence has it, it is deleted and the response is OK; if
  it is found nowhere, the response carries the error FF21067 and the state is
  unchanged.
\<close>

theorem delete_request:
  assumes delete: "requestType request = policyEngineAPIRequestTypeDelete"
      and healthy: "readFault p = None" "writeFault p = None"
  shows "(find (\<lambda>q. ID (mtx q) = txID request) (inflight sth) = Some pending \<longrightarrow>
            processPolicyAPIRequest (sth, p) request =
              ((sth\<lparr>inflight := markRemoved (txID request) (inflight sth),
                    inflightStale := True\<rparr>,
                p\<lparr>transactions := filter (\<lambda>t. ID t \<noteq> txID request) (transactions p)\<rparr>),
               \<lparr>tx = Some (mtx pending), err = None, status = http_StatusOK\<rparr>)
            \<and> find (\<lambda>q. ID (mtx q) = txID request)
                 (markRemoved (txID request) (inflight sth))
                 = Some (pending\<lparr>remove := True\<rparr>))
       \<and> (find (\<lambda>q. ID (mtx q) = txID request) (inflight sth) = None
            \<and> find (\<lambda>t. ID t = txID request) (transactions p) = Some m \<longrightarrow>
            processPolicyAPIRequest (sth, p) request =
              ((sth\<lparr>inflightStale := True\<rparr>,
                p\<lparr>transactions := filter (\<lambda>t. ID t \<noteq> txID request) (transactions p)\<rparr>),
               \<lparr>tx = Some m, err = None, status = http_StatusOK\<rparr>))
       \<and> (find (\<lambda>q. ID (mtx q) = txID request) (inflight sth) = None
            \<and> find (\<lambda>t. ID t = txID request) (transactions p) = None \<longrightarrow>
            processPolicyAPIRequest (sth, p) request =
              ((sth, p), errorResponse (MsgTransactionNotFound (txID request))))"
proof (intro conjI impI)
  assume f: "find (\<lambda>q. ID (mtx q) = txID request) (inflight sth) = Some pending"
  then have "ID (mtx pending) = txID request"
    by (auto simp: find_Some_iff)
  then show "processPolicyAPIRequest (sth, p) request =
              ((sth\<lparr>inflight := markRemoved (txID request) (inflight sth),
                    inflightStale := True\<rparr>,
                p\<lparr>transactions := filter (\<lambda>t. ID t \<noteq> txID request) (transactions p)\<rparr>),
               \<lparr>tx = Some (mtx pending), err = None, status = http_StatusOK\<rparr>)"
    using f delete healthy
    by (simp add: processPolicyAPIRequest_def store_DeleteTransaction_def)
  show "find (\<lambda>q. ID (mtx q) = txID request) (markRemoved (txID request) (inflight sth))
                 = Some (pending\<lparr>remove := True\<rparr>)"
    using f by (simp add: find_markRemoved)
next
  assume a: "find (\<lambda>q. ID (mtx q) = txID request) (inflight sth) = None
            \<and> find (\<lambda>t. ID t = txID request) (transactions p) = Some m"
  then have "ID m = txID request" by (auto simp: find_Some_iff)
  then show "processPolicyAPIRequest (sth, p) request =
              ((sth\<lparr>inflightStale := True\<rparr>,
                p\<lparr>transactions := filter (\<lambda>t. ID t \<noteq> txID request) (transactions p)\<rparr>),
               \<lparr>tx = Some m, err = None, status = http_StatusOK\<rparr>)"
    using a delete healthy
    by (simp add: processPolicyAPIRequest_def store_DeleteTransaction_def
          store_GetTransactionByID_def markRemoved_absent)
next
  assume "find (\<lambda>q. ID (mtx q) = txID request) (inflight sth) = None
            \<and> find (\<lambda>t. ID t = txID request) (transactions p) = None"
  then show "processPolicyAPIRequest (sth, p) request =
              ((sth, p), errorResponse (MsgTransactionNotFound (txID request)))"
    using delete healthy
    by (simp add: processPolicyAPIRequest_def store_GetTransactionByID_def)
qed

theorem delete_request_witness:
  "processPolicyAPIRequest
     (sampleHandler\<lparr>inflight := [samplePending (sampleTX ''ns1/tx1'' ''0xaaaaa'' 12345 0) []]\<rparr>,
      samplePersistence [sampleTX ''ns1/tx1'' ''0xaaaaa'' 12345 0] None)
     \<lparr>requestType = policyEngineAPIRequestTypeDelete, txID = ''ns1/tx1''\<rparr>
   = ((sampleHandler\<lparr>inflight :=
          [(samplePending (sampleTX ''ns1/tx1'' ''0xaaaaa'' 12345 0) [])\<lparr>remove := True\<rparr>],
        inflightStale := True\<rparr>,
       samplePersistence [] None),
      \<lparr>tx = Some (sampleTX ''ns1/tx1'' ''0xaaaaa'' 12345 0), err = None,
       status = http_StatusOK\<rparr>)
   \<and> processPolicyAPIRequest
     (sampleHandler, samplePersistence [sampleTX ''ns1/tx1'' ''0xaaaaa'' 12345 0] None)
     \<lparr>requestType = policyEngineAPIRequestTypeDelete, txID = ''ns1/tx1''\<rparr>
   = ((sampleHandler\<lparr>inflightStale := True\<rparr>, samplePersistence [] None),
      \<lparr>tx = Some (sampleTX ''ns1/tx1'' ''0xaaaaa'' 12345 0), err = None,
       status = http_StatusOK\<rparr>)
   \<and> processPolicyAPIRequest
     (sampleHandler\<lparr>inflight := [samplePending (sampleTX ''ns1/tx1'' ''0xaaaaa'' 12345 0) []]\<rparr>,
      samplePersistence [] None)
     \<lparr>requestType = policyEngineAPIRequestTypeDelete, txID = ''bad-id''\<rparr>
   = ((sampleHandler\<lparr>inflight := [samplePending (sampleTX ''ns1/tx1'' ''0xaaaaa'' 12345 0) []]\<rparr>,
       samplePersistence [] None),
      errorResponse (Error ''FF21067: Transaction bad-id not found''))"
proof -
  let ?t = "sampleTX ''ns1/tx1'' ''0xaaaaa'' 12345 0"
  let ?fl = "sampleHandler\<lparr>inflight := [samplePending ?t []]\<rparr>"
  let ?rq = "\<lparr>requestType = policyEngineAPIRequestTypeDelete, txID = ''ns1/tx1''\<rparr>"
  let ?bad = "\<lparr>requestType = policyEngineAPIRequestTypeDelete, txID = ''bad-id''\<rparr>"
  show ?thesis
    using delete_request[where request = ?rq and p = "samplePersistence [?t] None"
            and sth = ?fl and pending = "samplePending ?t []" and m = ?t]
          delete_request[where request = ?rq and p = "samplePersistence [?t] None"
            and sth = sampleHandler and pending = "samplePending ?t []" and m = ?t]
          delete_request[where request = ?bad and p = "samplePersistence [] None"
            and sth = ?fl and pending = "samplePending ?t []" and m = ?t]
    by (simp add: sampleHandler_def samplePending_def samplePersistence_def sampleTX_def
          MsgTransactionNotFound_def)
qed

section \<open>The nonces of a signer\<close>

lemma insort_key_snoc:
  "f a < f y \<Longrightarrow> insort_key f a (zs @ [y]) = insort_key f a zs @ [y]"
  by (induction zs) auto

lemma sort_key_snoc_max:
  "\<forall>x\<in>set xs. f x < f y \<Longrightarrow> sort_key f (xs @ [y]) = sort_key f xs @ [y]"
  by (induction xs) (simp_all add: insort_key_snoc)

lemma sort_key_last_max:
  assumes "xs \<noteq> []" and "x \<in> set xs"
  shows "f x \<le> f (last (sort_key f xs))"
proof -
  let ?ys = "sort_key f xs"
  have s: "sorted (map f ?ys)" by simp
  have ne: "?ys \<noteq> []" using assms(1) by (metis length_sort length_0_conv)
  have "x \<in> set ?ys" using assms(2) by simp
  then obtain i where i: "i < length ?ys" "?ys ! i = x" by (meson in_set_conv_nth)
  have "map f ?ys ! i \<le> map f ?ys ! (length ?ys - 1)"
    using s i(1) by (intro sorted_nth_mono) auto
  then show ?thesis using i ne by (simp add: last_conv_nth)
qed

lemma take1_rev: "xs \<noteq> [] \<Longrightarrow> take (Suc 0) (rev xs) = [last xs]"
  by (cases xs rule: rev_cases) simp_all

lemma store_latest:
  assumes "readFault p = None"
  shows "store_ListTransactionsByNonce p addr None (Suc 0) SortDirectionDescending =
           Inr (let mine = filter (\<lambda>t. From t = addr) (transactions p)
                in if mine = [] then [] else [last (sort_key Nonce mine)])"
proof -
  have "sort_key Nonce (filter (\<lambda>t. From t = addr) (transactions p)) = []
          \<longleftrightarrow> filter (\<lambda>t. From t = addr) (transactions p) = []"
    by (metis length_sort length_0_conv)
  then show ?thesis
    using assms by (auto simp: store_ListTransactionsByNonce_def Let_def take1_rev)
qed

lemma latestNonce_None:
  assumes "readFault p = None" and "latestNonce p addr = None"
  shows "filter (\<lambda>t. From t = addr) (transactions p) = []"
  using assms by (auto simp: latestNonce_def store_latest Let_def split: if_splits)

lemma latestNonce_Some:
  assumes "readFault p = None" and "latestNonce p addr = Some (m, c)"
  shows "\<forall>t\<in>set (transactions p). From t = addr \<longrightarrow> Nonce t \<le> m"
proof
  fix t assume t: "t \<in> set (transactions p)"
  let ?mine = "filter (\<lambda>t. From t = addr) (transactions p)"
  show "From t = addr \<longrightarrow> Nonce t \<le> m"
  proof
    assume "From t = addr"
    then have "t \<in> set ?mine" using t by simp
    then have ne: "?mine \<noteq> []" by (metis empty_iff empty_set)
    then have "m = Nonce (last (sort_key Nonce ?mine))"
      using assms by (simp add: latestNonce_def store_latest Let_def)
    then show "Nonce t \<le> m"
      using sort_key_last_max[OF ne \<open>t \<in> set ?mine\<close>, of Nonce] by simp
  qed
qed

lemma latestNonce_write:
  assumes "readFault p = None"
      and "\<forall>t\<in>set (transactions p). From t = addr \<longrightarrow> Nonce t < Nonce m"
      and "From m = addr"
  shows "latestNonce (p\<lparr>transactions := transactions p @ [m]\<rparr>) addr = Some (Nonce m, Created m)"
proof -
  let ?mine = "filter (\<lambda>t. From t = addr) (transactions p)"
  have "\<forall>x\<in>set ?mine. Nonce x < Nonce m" using assms(2) by simp
  then have "sort_key Nonce (?mine @ [m]) = sort_key Nonce ?mine @ [m]"
    by (rule sort_key_snoc_max)
  then show ?thesis
    using assms(1,3) by (simp add: latestNonce_def store_latest Let_def)
qed


lemma calcNextNonce_store:
  assumes healthy: "readFault p = None"
      and calc: "calcNextNonce (toolkit_of p conn) now timeout addr = (calls, Inr n)"
  shows "(latestNonce p addr = None \<longrightarrow>
            (\<exists>k. NextNonceForSigner conn addr = Inr k \<and> n = Uint64 k))
       \<and> (\<forall>m c. latestNonce p addr = Some (m, c) \<longrightarrow>
             (time_Since now c < timeout \<longrightarrow> n = Uint64 m + 1)
           \<and> (\<not> time_Since now c < timeout \<longrightarrow>
                 (\<exists>k. NextNonceForSigner conn addr = Inr k
                     \<and> n = (if Uint64 k \<le> Uint64 m then Uint64 m + 1 else Uint64 k))))"
  using calc
  by (auto simp: calcNextNonce_def toolkit_of_def latestNonce_def SortDirection_of_def Let_def
              store_latest[OF healthy]
           split: sum.splits list.splits if_splits)


lemma calcNextNonce_healthy:
  "calcNextNonce (toolkit_of p conn) now timeout addr = (calls, Inr n) \<Longrightarrow> readFault p = None"
  by (auto simp: calcNextNonce_def toolkit_of_def store_ListTransactionsByNonce_def Let_def
           split: option.splits sum.splits)

text \<open>
  C2, as the claim states it, fails. With the signer's latest transaction at nonce 5
  and older than \<open>nonceStateTimeout\<close>, and the node answering 10, the next nonce is
  10. So two accepted requests of the signer, the first given the nonce 5 and the
  second handled two hours later, are given the nonces 5 and 10.
\<close>

theorem nonces_gap_counterexample:
  "snd (calcNextNonce (sampleToolkit (Inr [sampleTX ''ns1/op1'' ''0xaaaaa'' 5 0]) (Inr 10))
          7200000000000 3600000000000 ''0xaaaaa'') = Inr 10
   \<and> map_option (\<lambda>(st, results). (length results, assignedNonces results))
     (handleRequests (sampleHandler, samplePersistence [] None)
        [(0, sampleConnector (Inr 5) (Inr ''0xhashA''), sampleRequest ''ns1/op1''),
         (7200000000000, sampleConnector (Inr 10) (Inr ''0xhashA''), sampleRequest ''ns1/op2'')])
   = Some (2, [5, 10])"
  by (simp add: HandleNewTransaction_def assignAndLockNonce_unlocked
        calcNextNonce_def toolkit_of_def store_ListTransactionsByNonce_def
        store_WriteTransaction_def complete_def newManagedTX_def sampleHandler_def
        samplePersistence_def sampleConnector_def sampleToolkit_def sampleRequest_def
        sampleTX_def SortDirection_of_def Uint64_def time_Since_def maxDuration_def
        minDuration_def Let_def)

section \<open>Several callers\<close>

lemma holdsLock_holding: "holdsLock addr x = (\<exists>ln. holding x = Some ln \<and> signer ln = addr)"
  by (cases x) auto

lemma complete_held:
  assumes "unlocked ln < length (channels sth)" and "\<not> channels sth ! unlocked ln"
  shows "complete sth ln =
           (if mux sth then None
            else Some (sth\<lparr>lockedNonces := (lockedNonces sth)(signer ln := None),
                           channels := (channels sth)[unlocked ln := True]\<rparr>, None))"
  using assms by (simp add: complete_def Let_def)

lemma lockInvariant_initial: "lockInvariant (initialWorld timeout callers)"
  by (auto simp: lockInvariant_def initialWorld_def split: prod.splits)

lemma goStep_bound: "goStep tk now g w = Some w' \<Longrightarrow> g < length (goroutines w)"
  by (cases "length (goroutines w) \<le> g") (simp_all add: goStep_def)


lemma lockInvariant_update:
  assumes inv: "lockInvariant w" and g: "g < length (goroutines w)"
    and others: "\<And>h ln. h < length (goroutines w) \<Longrightarrow> h \<noteq> g \<Longrightarrow>
         holding (goroutines w ! h) = Some ln \<Longrightarrow>
         lockedNonces sth' (signer ln) \<noteq> None \<and> unlocked ln < length (channels sth')
         \<and> \<not> channels sth' ! unlocked ln"
    and mine: "\<And>ln. holding x = Some ln \<Longrightarrow>
         lockedNonces sth' (signer ln) \<noteq> None \<and> unlocked ln < length (channels sth')
         \<and> \<not> channels sth' ! unlocked ln"
    and apart: "\<And>ln h ln'. holding x = Some ln \<Longrightarrow> h < length (goroutines w) \<Longrightarrow> h \<noteq> g \<Longrightarrow>
         holding (goroutines w ! h) = Some ln' \<Longrightarrow>
         signer ln' \<noteq> signer ln \<and> unlocked ln' \<noteq> unlocked ln"
  shows "lockInvariant (w\<lparr>handler := sth', goroutines := (goroutines w)[g := x]\<rparr>)"
proof -
  let ?gs = "(goroutines w)[g := x]"
  have len: "length ?gs = length (goroutines w)" by simp
  have atg: "?gs ! g = x" using g by simp
  have ato: "\<And>h. h \<noteq> g \<Longrightarrow> ?gs ! h = goroutines w ! h" by simp
  from inv have i2: "\<And>h k ln ln'. h < length (goroutines w) \<Longrightarrow> k < length (goroutines w) \<Longrightarrow>
            holding (goroutines w ! h) = Some ln \<Longrightarrow> holding (goroutines w ! k) = Some ln'
            \<Longrightarrow> h \<noteq> k \<Longrightarrow> signer ln \<noteq> signer ln' \<and> unlocked ln \<noteq> unlocked ln'"
    unfolding lockInvariant_def by blast
  have A: "lockedNonces sth' (signer ln) \<noteq> None \<and> unlocked ln < length (channels sth')
         \<and> \<not> channels sth' ! unlocked ln"
    if "h < length ?gs" "holding (?gs ! h) = Some ln" for h ln
  proof (cases "h = g")
    case True
    then show ?thesis using that atg mine by simp
  next
    case False
    then show ?thesis using that ato[OF False] others[of h ln] by simp
  qed
  have B: "signer ln \<noteq> signer ln' \<and> unlocked ln \<noteq> unlocked ln'"
    if "h < length ?gs" "k < length ?gs" "holding (?gs ! h) = Some ln"
       "holding (?gs ! k) = Some ln'" "h \<noteq> k" for h k ln ln'
  proof (cases "h = g")
    case True
    then have kg: "k \<noteq> g" using that(5) by simp
    have "holding x = Some ln" using that(3) True atg by simp
    moreover have "holding (goroutines w ! k) = Some ln'" using that(4) ato[OF kg] by simp
    ultimately show ?thesis using apart[of ln k ln'] that(2) kg by auto
  next
    case False
    have hl: "holding (goroutines w ! h) = Some ln" using that(3) ato[OF False] by simp
    show ?thesis
    proof (cases "k = g")
      case True
      then have "holding x = Some ln'" using that(4) atg by simp
      then show ?thesis using apart[of ln' h ln] that(1) False hl by auto
    next
      case kf: False
      have "holding (goroutines w ! k) = Some ln'" using that(4) ato[OF kf] by simp
      then show ?thesis using i2[of h k ln ln'] that(1,2,5) hl by simp
    qed
  qed
  show ?thesis
    unfolding lockInvariant_def using A B by (simp del: length_list_update)
qed


lemma lockInvariant_holds:
  assumes "lockInvariant w" and "h < length (goroutines w)"
      and "holding (goroutines w ! h) = Some ln"
  shows "lockedNonces (handler w) (signer ln) \<noteq> None
         \<and> unlocked ln < length (channels (handler w))
         \<and> \<not> channels (handler w) ! unlocked ln"
  using assms unfolding lockInvariant_def by blast

lemma lockInvariant_apart:
  assumes "lockInvariant w" and "h < length (goroutines w)" and "k < length (goroutines w)"
      and "holding (goroutines w ! h) = Some ln" and "holding (goroutines w ! k) = Some ln'"
      and "h \<noteq> k"
  shows "signer ln \<noteq> signer ln' \<and> unlocked ln \<noteq> unlocked ln'"
  using assms unfolding lockInvariant_def by blast

lemma lockInvariant_same:
  assumes inv: "lockInvariant w" and g: "g < length (goroutines w)"
      and x: "\<And>ln. holding x = Some ln \<Longrightarrow>
                \<exists>ln0. holding (goroutines w ! g) = Some ln0 \<and> signer ln = signer ln0
                       \<and> unlocked ln = unlocked ln0"
  shows "lockInvariant (w\<lparr>handler := handler w, goroutines := (goroutines w)[g := x]\<rparr>)"
proof (rule lockInvariant_update[OF inv g])
  fix h ln assume "h < length (goroutines w)" "holding (goroutines w ! h) = Some ln"
  then show "lockedNonces (handler w) (signer ln) \<noteq> None
       \<and> unlocked ln < length (channels (handler w))
       \<and> \<not> channels (handler w) ! unlocked ln"
    by (rule lockInvariant_holds[OF inv])
next
  fix ln assume "holding x = Some ln"
  from x[OF this] obtain ln0 where l: "holding (goroutines w ! g) = Some ln0"
      "signer ln = signer ln0" "unlocked ln = unlocked ln0" by blast
  from lockInvariant_holds[OF inv g l(1)] l(2,3)
  show "lockedNonces (handler w) (signer ln) \<noteq> None
       \<and> unlocked ln < length (channels (handler w))
       \<and> \<not> channels (handler w) ! unlocked ln" by simp
next
  fix ln h ln'
  assume a: "holding x = Some ln" "h < length (goroutines w)" "h \<noteq> g"
     "holding (goroutines w ! h) = Some ln'"
  from x[OF a(1)] obtain ln0 where l: "holding (goroutines w ! g) = Some ln0"
      "signer ln = signer ln0" "unlocked ln = unlocked ln0" by blast
  from lockInvariant_apart[OF inv a(2) g a(4) l(1) a(3)] l(2,3)
  show "signer ln' \<noteq> signer ln \<and> unlocked ln' \<noteq> unlocked ln" by simp
qed

lemma lockInvariant_release:
  assumes inv: "lockInvariant w" and g: "g < length (goroutines w)"
      and mine: "holding (goroutines w ! g) = Some ln0" and x: "holding x = None"
  shows "lockInvariant (w\<lparr>handler := (handler w)\<lparr>lockedNonces :=
                     (lockedNonces (handler w))(signer ln0 := None),
                   channels := (channels (handler w))[unlocked ln0 := True]\<rparr>,
              goroutines := (goroutines w)[g := x]\<rparr>)"
proof (rule lockInvariant_update[OF inv g])
  fix h ln assume a: "h < length (goroutines w)" "h \<noteq> g" "holding (goroutines w ! h) = Some ln"
  from lockInvariant_apart[OF inv a(1) g a(3) mine a(2)] lockInvariant_holds[OF inv a(1) a(3)]
  show "lockedNonces ((handler w)\<lparr>lockedNonces :=
                   (lockedNonces (handler w))(signer ln0 := None),
                 channels := (channels (handler w))[unlocked ln0 := True]\<rparr>) (signer ln) \<noteq> None
       \<and> unlocked ln < length (channels ((handler w)\<lparr>lockedNonces :=
                   (lockedNonces (handler w))(signer ln0 := None),
                 channels := (channels (handler w))[unlocked ln0 := True]\<rparr>))
       \<and> \<not> channels ((handler w)\<lparr>lockedNonces :=
                   (lockedNonces (handler w))(signer ln0 := None),
                 channels := (channels (handler w))[unlocked ln0 := True]\<rparr>) ! unlocked ln"
    by simp
next
  fix ln assume "holding x = Some ln"
  then show "lockedNonces ((handler w)\<lparr>lockedNonces :=
                   (lockedNonces (handler w))(signer ln0 := None),
                 channels := (channels (handler w))[unlocked ln0 := True]\<rparr>) (signer ln) \<noteq> None
       \<and> unlocked ln < length (channels ((handler w)\<lparr>lockedNonces :=
                   (lockedNonces (handler w))(signer ln0 := None),
                 channels := (channels (handler w))[unlocked ln0 := True]\<rparr>))
       \<and> \<not> channels ((handler w)\<lparr>lockedNonces :=
                   (lockedNonces (handler w))(signer ln0 := None),
                 channels := (channels (handler w))[unlocked ln0 := True]\<rparr>) ! unlocked ln"
    using x by simp
next
  fix ln h ln' assume "holding x = Some ln"
  then show "signer ln' \<noteq> signer ln \<and> unlocked ln' \<noteq> unlocked ln" using x by simp
qed

lemma lockInvariant_step:
  assumes inv: "lockInvariant w" and step: "goStep tk now g w = Some w'"
  shows "lockInvariant w'"
proof -
  from step have g: "g < length (goroutines w)" by (rule goStep_bound)
  note i1 = lockInvariant_holds[OF inv]
  note i2 = lockInvariant_apart[OF inv]
  show ?thesis
  proof (cases "goroutines w ! g")
    case (Entering opID addr)
    show ?thesis
    proof (cases "lockedNonces (handler w) addr")
      case None
      let ?locked = "\<lparr>nsOpID = opID, signer = addr, unlocked = length (channels (handler w)),
                                  nonce = 0, spent = None\<rparr>"
      let ?sth = "(handler w)\<lparr>lockedNonces := (lockedNonces (handler w))(addr \<mapsto> ?locked),
                                  channels := channels (handler w) @ [False]\<rparr>"
      have w': "w' = w\<lparr>handler := ?sth, goroutines := (goroutines w)[g := Computing ?locked]\<rparr>"
        using step g Entering None by (simp add: goStep_def Let_def split: if_splits)
      have other: "signer ln \<noteq> addr \<and> unlocked ln < length (channels (handler w))
             \<and> \<not> channels (handler w) ! unlocked ln
             \<and> lockedNonces (handler w) (signer ln) \<noteq> None"
        if "h < length (goroutines w)" "holding (goroutines w ! h) = Some ln" for h ln
        using i1[OF that] None by auto
      show ?thesis
        unfolding w'
      proof (rule lockInvariant_update[OF inv g])
        fix h ln assume a: "h < length (goroutines w)" "h \<noteq> g" "holding (goroutines w ! h) = Some ln"
        from other[OF a(1) a(3)]
        show "lockedNonces ?sth (signer ln) \<noteq> None \<and> unlocked ln < length (channels ?sth)
         \<and> \<not> channels ?sth ! unlocked ln"
          by (simp add: nth_append)
      next
        fix ln assume "holding (Computing ?locked) = Some ln"
        then have "ln = ?locked" by simp
        then show "lockedNonces ?sth (signer ln) \<noteq> None \<and> unlocked ln < length (channels ?sth)
         \<and> \<not> channels ?sth ! unlocked ln"
          by simp
      next
        fix ln h ln'
        assume a: "holding (Computing ?locked) = Some ln" "h < length (goroutines w)" "h \<noteq> g"
           "holding (goroutines w ! h) = Some ln'"
        then have "ln = ?locked" by simp
        then show "signer ln' \<noteq> signer ln \<and> unlocked ln' \<noteq> unlocked ln"
          using other[OF a(2) a(4)] by simp
      qed
    next
      case (Some locked)
      then have w': "w' = w\<lparr>handler := handler w,
                       goroutines := (goroutines w)[g := Waiting opID addr (unlocked locked)]\<rparr>"
        using step g Entering by (simp add: goStep_def Let_def split: if_splits)
      show ?thesis unfolding w' by (rule lockInvariant_same[OF inv g]) simp
    qed
  next
    case (Waiting opID addr c)
    then have w': "w' = w\<lparr>handler := handler w, goroutines := (goroutines w)[g := Entering opID addr]\<rparr>"
      using step g by (cases "c < length (channels (handler w)) \<and> channels (handler w) ! c")
                      (simp_all add: goStep_def Let_def)
    show ?thesis unfolding w' by (rule lockInvariant_same[OF inv g]) simp
  next
    case (Computing locked)
    from i1[OF g, of locked] Computing
    have mine: "unlocked locked < length (channels (handler w))"
        "\<not> channels (handler w) ! unlocked locked" by simp_all
    obtain calls r where c: "calcNextNonce tk now (nonceStateTimeout (handler w)) (signer locked) = (calls, r)"
      by (cases "calcNextNonce tk now (nonceStateTimeout (handler w)) (signer locked)")
    show ?thesis
    proof (cases r)
      case (Inl e)
      then have w': "w' = w\<lparr>handler := (handler w)\<lparr>lockedNonces :=
                     (lockedNonces (handler w))(signer locked := None),
                   channels := (channels (handler w))[unlocked locked := True]\<rparr>,
              goroutines := (goroutines w)[g := Failed e]\<rparr>"
        using step g Computing c complete_held[OF mine]
        by (simp add: goStep_def Let_def split: if_splits)
      show ?thesis unfolding w' using Computing by (intro lockInvariant_release[OF inv g]) simp_all
    next
      case (Inr n)
      then have w': "w' = w\<lparr>handler := handler w,
                        goroutines := (goroutines w)[g := Holding (locked\<lparr>nonce := n\<rparr>)]\<rparr>"
        using step g Computing c by (simp add: goStep_def Let_def)
      have "lockInvariant (w\<lparr>handler := handler w,
                        goroutines := (goroutines w)[g := Holding (locked\<lparr>nonce := n\<rparr>)]\<rparr>)"
        using Computing by (intro lockInvariant_same[OF inv g]) auto
      then show ?thesis unfolding w' .
    qed
  next
    case (Holding ln0)
    from i1[OF g, of ln0] Holding
    have mine: "unlocked ln0 < length (channels (handler w))"
        "\<not> channels (handler w) ! unlocked ln0" by simp_all
    have w': "w' = w\<lparr>handler := (handler w)\<lparr>lockedNonces :=
                     (lockedNonces (handler w))(signer ln0 := None),
                   channels := (channels (handler w))[unlocked ln0 := True]\<rparr>,
              goroutines := (goroutines w)[g := Completed]\<rparr>"
      using step g Holding complete_held[OF mine]
      by (simp add: goStep_def Let_def split: if_splits)
    show ?thesis unfolding w' using Holding by (intro lockInvariant_release[OF inv g]) simp_all
  next
    case (Failed e)
    then show ?thesis using step g by (simp add: goStep_def)
  next
    case Completed
    then show ?thesis using step g by (simp add: goStep_def)
  qed
qed


lemma lockInvariant_run:
  "lockInvariant w \<Longrightarrow> runSchedule w schedule = Some w' \<Longrightarrow> lockInvariant w'"
proof (induction schedule arbitrary: w)
  case Nil
  then show ?case by simp
next
  case (Cons x schedule)
  obtain g tk now where x: "x = (g, tk, now)" by (cases x)
  from Cons.prems(2) x obtain w1 where s: "goStep tk now g w = Some w1"
      and r: "runSchedule w1 schedule = Some w'"
    by (auto split: option.splits)
  from Cons.IH[OF lockInvariant_step[OF Cons.prems(1) s] r] show ?case .
qed

lemma goStep_mux:
  assumes inv: "lockInvariant w" and step: "goStep tk now g w = Some w'"
  shows "mux (handler w') = mux (handler w)"
proof -
  from step have g: "g < length (goroutines w)" by (rule goStep_bound)
  show ?thesis
  proof (cases "goroutines w ! g")
    case (Entering opID addr)
    then show ?thesis
      using step g by (auto simp: goStep_def Let_def split: if_splits option.splits)
  next
    case (Waiting opID addr c)
    then show ?thesis
      using step g by (auto simp: goStep_def Let_def split: if_splits)
  next
    case (Computing locked)
    from lockInvariant_holds[OF inv g, of locked] Computing
    have mine: "unlocked locked < length (channels (handler w))"
        "\<not> channels (handler w) ! unlocked locked" by simp_all
    show ?thesis
      using step g Computing complete_held[OF mine]
      by (auto simp: goStep_def Let_def split: if_splits prod.splits sum.splits)
  next
    case (Holding ln0)
    from lockInvariant_holds[OF inv g, of ln0] Holding
    have mine: "unlocked ln0 < length (channels (handler w))"
        "\<not> channels (handler w) ! unlocked ln0" by simp_all
    show ?thesis
      using step g Holding complete_held[OF mine]
      by (auto simp: goStep_def Let_def split: if_splits)
  next
    case (Failed e)
    then show ?thesis using step g by (simp add: goStep_def)
  next
    case Completed
    then show ?thesis using step g by (simp add: goStep_def)
  qed
qed

lemma mux_run:
  "lockInvariant w \<Longrightarrow> runSchedule w schedule = Some w' \<Longrightarrow>
   mux (handler w') = mux (handler w)"
proof (induction schedule arbitrary: w)
  case Nil
  then show ?case by simp
next
  case (Cons x schedule)
  obtain g tk now where x: "x = (g, tk, now)" by (cases x)
  from Cons.prems(2) x obtain w1 where s: "goStep tk now g w = Some w1"
      and r: "runSchedule w1 schedule = Some w'"
    by (auto split: option.splits)
  from Cons.IH[OF lockInvariant_step[OF Cons.prems(1) s] r] goStep_mux[OF Cons.prems(1) s]
  show ?case by simp
qed

lemma holders_at_most_one:
  assumes "lockInvariant w"
  shows "length (holders w addr) \<le> 1"
proof -
  have same: "a = b" if "a \<in> set (holders w addr)" "b \<in> set (holders w addr)" for a b
  proof (rule ccontr)
    assume ne: "a \<noteq> b"
    from that obtain la lb where
      "a < length (goroutines w)" "holding (goroutines w ! a) = Some la" "signer la = addr"
      "b < length (goroutines w)" "holding (goroutines w ! b) = Some lb" "signer lb = addr"
      by (auto simp: holders_def holdsLock_holding)
    with assms ne show False unfolding lockInvariant_def by metis
  qed
  have d: "distinct (holders w addr)" by (simp add: holders_def)
  show ?thesis
  proof (cases "holders w addr")
    case Nil
    then show ?thesis by simp
  next
    case (Cons a xs)
    show ?thesis
    proof (cases xs)
      case Nil
      then show ?thesis using Cons by simp
    next
      case (Cons b ys)
      with \<open>holders w addr = a # xs\<close> d same[of a b] show ?thesis by auto
    qed
  qed
qed

lemma released_runs:
  assumes "h \<in> set (released w)"
  shows "\<exists>opID addr c. goroutines w ! h = Waiting opID addr c
           \<and> goStep tk now h w = Some (w\<lparr>goroutines :=
                 (goroutines w)[h := Entering opID addr]\<rparr>)"
proof -
  from assms have h: "h < length (goroutines w)" by (simp add: released_def)
  from assms obtain opID addr c where w: "goroutines w ! h = Waiting opID addr c"
      and c: "c < length (channels (handler w))" "channels (handler w) ! c"
    by (cases "goroutines w ! h") (simp_all add: released_def)
  have "goStep tk now h w = Some (w\<lparr>goroutines :=
                 (goroutines w)[h := Entering opID addr]\<rparr>)"
    using h w c by (simp add: goStep_def)
  with w show ?thesis by blast
qed

text \<open>
  C8, as the claim states it, fails. Three callers ask for a nonce of one signer: the
  first takes the lock and is given its nonce, the other two wait on its channel. The
  one \<open>complete\<close> of the first releases both of them, not exactly one. Both take
  the loop again; the one that comes first takes the lock, the other waits on the new
  holder's channel.
\<close>

theorem complete_wakes_all_counterexample:
  "map_option (\<lambda>w. (waiters w 0, released w))
      (runSchedule (initialWorld 3600000000000 sampleCallers) (sampleSchedule [0, 0, 1, 2]))
     = Some ([1, 2], [])
   \<and> map_option released
      (runSchedule (initialWorld 3600000000000 sampleCallers) (sampleSchedule [0, 0, 1, 2, 0]))
     = Some [1, 2]
   \<and> map_option (\<lambda>w. (holders w ''0xaaaaa'', waiters w 1))
      (runSchedule (initialWorld 3600000000000 sampleCallers)
         (sampleSchedule [0, 0, 1, 2, 0, 1, 2, 2, 1]))
     = Some ([2], [1])"
  by code_simp

text \<open>
  C8, amended. In every state that the callers reach from the start, the
  \<open>complete\<close> of a goroutine that holds a handle can run: it removes the entry of
  the signer from the map and closes the channel, which releases every goroutine that
  waits on that channel (all of them, and no other); each released goroutine can take
  the loop again, and before as after at most one goroutine holds the lock of a
  signer.
\<close>

theorem complete_releases_waiters:
  assumes reach: "runSchedule (initialWorld timeout callers) schedule = Some w"
      and g: "g < length (goroutines w)"
      and hold: "goroutines w ! g = Holding ln"
  shows "\<exists>w'. goStep tk now g w = Some w'
          \<and> lockedNonces (handler w') (signer ln) = None
          \<and> goroutines w' ! g = Completed
          \<and> set (released w') = set (released w) \<union> set (waiters w (unlocked ln))
          \<and> (\<forall>h\<in>set (released w'). \<exists>opID addr c.
                 goroutines w' ! h = Waiting opID addr c
                 \<and> goStep tk' now' h w' = Some (w'\<lparr>goroutines :=
                       (goroutines w')[h := Entering opID addr]\<rparr>))
          \<and> (\<forall>addr. length (holders w addr) \<le> 1 \<and> length (holders w' addr) \<le> 1)"
proof -
  have inv: "lockInvariant w"
    using lockInvariant_initial reach by (rule lockInvariant_run)
  then have mine: "unlocked ln < length (channels (handler w))"
      "\<not> channels (handler w) ! unlocked ln"
    using g hold unfolding lockInvariant_def by auto
  let ?w = "w\<lparr>handler := (handler w)\<lparr>lockedNonces :=
                     (lockedNonces (handler w))(signer ln := None),
                   channels := (channels (handler w))[unlocked ln := True]\<rparr>,
              goroutines := (goroutines w)[g := Completed]\<rparr>"
  have free: "\<not> mux (handler w)"
    using mux_run[OF lockInvariant_initial reach] by (simp add: initialWorld_def)
  have step: "goStep tk now g w = Some ?w"
    using g hold complete_held[OF mine] free by (simp add: goStep_def Let_def)
  have inv': "lockInvariant ?w" using inv step by (rule lockInvariant_step)
  have rel: "h \<in> set (released ?w) \<longleftrightarrow> h \<in> set (released w) \<union> set (waiters w (unlocked ln))"
    for h
  proof (cases "h = g")
    case True
    then show ?thesis using g hold by (simp add: released_def waiters_def)
  next
    case False
    then show ?thesis
      using mine
      by (cases "goroutines w ! h")
         (auto simp: released_def waiters_def nth_list_update)
  qed
  have h1: "length (holders w addr) \<le> 1" for addr
    using inv by (rule holders_at_most_one)
  have h2: "length (holders ?w addr) \<le> 1" for addr
    using inv' by (rule holders_at_most_one)
  have r: "set (released ?w) = set (released w) \<union> set (waiters w (unlocked ln))"
    using rel by blast
  have e: "lockedNonces (handler ?w) (signer ln) = None" by simp
  have c: "goroutines ?w ! g = Completed" using g by simp
  have go: "\<exists>opID addr c. goroutines ?w ! h = Waiting opID addr c
              \<and> goStep tk' now' h ?w = Some (?w\<lparr>goroutines :=
                       (goroutines ?w)[h := Entering opID addr]\<rparr>)"
    if "h \<in> set (released ?w)" for h
    using that released_runs[of h ?w tk' now'] by blast
  from step e c r go h1 h2 show ?thesis by blast
qed

theorem complete_releases_waiters_witness:
  "\<exists>w w'. runSchedule (initialWorld 3600000000000 sampleCallers) (sampleSchedule [0, 0, 1, 2])
              = Some w
     \<and> goStep (sampleToolkit (Inr []) (Inr 12345)) 0 0 w = Some w'
     \<and> set (released w') = {1, 2}
     \<and> length (holders w' ''0xaaaaa'') \<le> 1"
proof -
  let ?ln = "\<lparr>nsOpID = ''ns1/op0'', signer = ''0xaaaaa'', unlocked = 0, nonce = 12345,
               spent = None\<rparr>"
  have "case runSchedule (initialWorld 3600000000000 sampleCallers)
                         (sampleSchedule [0, 0, 1, 2]) of
          None \<Rightarrow> False
        | Some w \<Rightarrow> 0 < length (goroutines w) \<and> goroutines w ! 0 = Holding ?ln
                     \<and> released w = [] \<and> waiters w 0 = [1, 2]"
    by code_simp
  then obtain w where run: "runSchedule (initialWorld 3600000000000 sampleCallers)
                         (sampleSchedule [0, 0, 1, 2]) = Some w"
    and g: "0 < length (goroutines w)"
    and hold: "goroutines w ! 0 = Holding ?ln"
    and before: "released w = []" "waiters w 0 = [1, 2]"
    by (cases "runSchedule (initialWorld 3600000000000 sampleCallers)
                         (sampleSchedule [0, 0, 1, 2])") auto
  from complete_releases_waiters[OF run g hold, of "sampleToolkit (Inr []) (Inr 12345)" 0]
  obtain w' where "goStep (sampleToolkit (Inr []) (Inr 12345)) 0 0 w = Some w'"
     "set (released w') = set (released w) \<union> set (waiters w (unlocked ?ln))"
     "length (holders w' ''0xaaaaa'') \<le> 1"
    by blast
  then show ?thesis using run before by (intro exI[of _ w] exI[of _ w']) auto
qed

end
